theory Spec2Isabelle
  imports Complex_Main "HOL-Library.Multiset" "HOL-Library.Product_Lexorder"
begin

section \<open>Text values\<close>

text \<open>
  A Python \<open>str\<close> is a sequence of Unicode code points; it is modelled as a list of
  code point numbers. A table cell is either null (\<open>pd.isna\<close> holds: \<open>None\<close>,
  \<open>NaN\<close>, \<open>NaT\<close>) or a value, given by its \<open>str(...)\<close> form.
\<close>

type_synonym ustr = "nat list"

text \<open>
  \<open>str.strip()\<close> and the pattern \<open>\\s\<close> of \<open>re\<close> both use the interpreter's
  whitespace test on code points, which holds for exactly these code points.
\<close>

definition py_isspace :: "nat \<Rightarrow> bool" where
  "py_isspace c =
     ((9 \<le> c \<and> c \<le> 13) \<or> (28 \<le> c \<and> c \<le> 32) \<or> c = 133 \<or> c = 160 \<or> c = 5760
      \<or> (8192 \<le> c \<and> c \<le> 8202) \<or> c = 8232 \<or> c = 8233 \<or> c = 8239 \<or> c = 8287
      \<or> c = 12288)"

definition py_strip :: "ustr \<Rightarrow> ustr" where
  "py_strip s = rev (dropWhile py_isspace (rev (dropWhile py_isspace s)))"

section \<open>firms\_merge: acquisition date normalisation\<close>

text \<open>
  \<open>parse_dd_mm_yyyy\<close> calls two library parsers. They are parameters of the model.
  \<open>strptime s fmt\<close> is \<open>datetime.strptime(s, fmt).date().isoformat()\<close>, or
  \<open>None\<close> where \<open>strptime\<close> raises \<open>ValueError\<close>.
  \<open>to_datetime_dayfirst s\<close> is the outcome of
  \<open>pd.to_datetime(s, dayfirst=True, errors="raise")\<close>: it raises, or it returns a
  timestamp, given by the ISO form of its date, or it returns \<open>NaT\<close> without raising,
  as it does for blank text and for the texts \<open>nan\<close> and \<open>NaT\<close>.
\<close>

datatype to_datetime_result = Raises | NaT | Timestamp ustr

record date_lib =
  strptime :: "ustr \<Rightarrow> string \<Rightarrow> ustr option"
  to_datetime_dayfirst :: "ustr \<Rightarrow> to_datetime_result"

text \<open>The \<open>for fmt in (...)\<close> loop: the first format that parses returns.\<close>

fun try_formats :: "date_lib \<Rightarrow> ustr \<Rightarrow> string list \<Rightarrow> ustr option" where
  "try_formats L s [] = None"
| "try_formats L s (fmt # fmts) =
     (case strptime L s fmt of
        Some d \<Rightarrow> Some d
      | None \<Rightarrow> try_formats L s fmts)"

definition day_first_formats :: "string list" where
  "day_first_formats = [''%d-%m-%Y'', ''%d/%m/%Y'', ''%d.%m.%Y'']"

text \<open>
  The last \<open>try\<close> block returns \<open>pd.to_datetime(...).date().isoformat()\<close> unless that
  expression raises. On \<open>NaT\<close> neither \<open>date()\<close> nor \<open>isoformat()\<close> raises, and the
  value is the string \<open>NaT\<close> (code points 78, 97, 84).
\<close>

definition parse_dd_mm_yyyy :: "date_lib \<Rightarrow> ustr option \<Rightarrow> ustr option" where
  "parse_dd_mm_yyyy L val =
     (case val of
        None \<Rightarrow> None
      | Some v \<Rightarrow>
          (let s = py_strip v in
           case try_formats L s day_first_formats of
             Some d \<Rightarrow> Some d
           | None \<Rightarrow>
               (case to_datetime_dayfirst L s of
                  Timestamp d \<Rightarrow> Some d
                | NaT \<Rightarrow> Some [78, 97, 84]
                | Raises \<Rightarrow> Some s)))"

text \<open>
  A row of the merged layer, as far as the merge reads it. \<open>normalize_acq_date\<close>
  fills the column \<open>ACQ_DATE_NORM\<close> from \<open>ACQ_DATE\<close>, row by row.
\<close>

record firms_row =
  ACQ_DATE :: "ustr option"
  ACQ_DATE_NORM :: "ustr option"
  LATITUDE :: "ustr option"
  LONGITUDE :: "ustr option"
  INSTRUMENT :: "ustr"

definition normalize_acq_date :: "date_lib \<Rightarrow> firms_row list \<Rightarrow> firms_row list" where
  "normalize_acq_date L gdf =
     map (\<lambda>r. r\<lparr>ACQ_DATE_NORM := parse_dd_mm_yyyy L (ACQ_DATE r)\<rparr>) gdf"

section \<open>Properties of the date normalisation\<close>

lemma parse_dd_mm_yyyy_null_iff:
  "parse_dd_mm_yyyy L val = None \<longleftrightarrow> val = None"
  by (auto simp: parse_dd_mm_yyyy_def Let_def split: option.splits to_datetime_result.splits)

text \<open>
  Where all four parser calls raise, the stripped text comes back; a null value comes back
  null; and the normalised column is null only where the source column is null.
\<close>

lemma parse_dd_mm_yyyy_raising_kept:
  "(strptime L (py_strip v) ''%d-%m-%Y'' = None \<and>
    strptime L (py_strip v) ''%d/%m/%Y'' = None \<and>
    strptime L (py_strip v) ''%d.%m.%Y'' = None \<and>
    to_datetime_dayfirst L (py_strip v) = Raises
      \<longrightarrow> parse_dd_mm_yyyy L (Some v) = Some (py_strip v)) \<and>
   parse_dd_mm_yyyy L None = None \<and>
   parse_dd_mm_yyyy L (Some v) \<noteq> None \<and>
   length (normalize_acq_date L gdf) = length gdf \<and>
   (\<forall>i < length gdf.
      ACQ_DATE_NORM (normalize_acq_date L gdf ! i) = parse_dd_mm_yyyy L (ACQ_DATE (gdf ! i)) \<and>
      (ACQ_DATE_NORM (normalize_acq_date L gdf ! i) = None \<longleftrightarrow> ACQ_DATE (gdf ! i) = None))"
  by (auto simp: parse_dd_mm_yyyy_def Let_def day_first_formats_def normalize_acq_date_def
      split: option.splits to_datetime_result.splits)

text \<open>
  The answers of the two parsers on the empty string, which is what a blank
  \<open>ACQ_DATE\<close> is after stripping: \<open>strptime\<close> raises for each of the three formats
  and \<open>pd.to_datetime\<close> returns \<open>NaT\<close>. Only these answers are used below.
\<close>

definition parsers_on_blank :: date_lib where
  "parsers_on_blank =
     \<lparr>strptime = (\<lambda>s fmt. None),
      to_datetime_dayfirst = (\<lambda>s. if s = [] then NaT else Raises)\<rparr>"

text \<open>
  Claim C10. The claim fails on a blank \<open>ACQ_DATE\<close> (three spaces, code point 32): its
  stripped form is the empty string, which none of the three formats parses and which the
  generic parse does not turn into a date, and still the result is not that stripped
  string but the text \<open>NaT\<close>. The result is not null.
\<close>

theorem parse_dd_mm_yyyy_blank_text:
  "py_strip [32, 32, 32] = [] \<and>
   strptime parsers_on_blank (py_strip [32, 32, 32]) ''%d-%m-%Y'' = None \<and>
   strptime parsers_on_blank (py_strip [32, 32, 32]) ''%d/%m/%Y'' = None \<and>
   strptime parsers_on_blank (py_strip [32, 32, 32]) ''%d.%m.%Y'' = None \<and>
   to_datetime_dayfirst parsers_on_blank (py_strip [32, 32, 32]) = NaT \<and>
   parse_dd_mm_yyyy parsers_on_blank (Some [32, 32, 32]) = Some [78, 97, 84] \<and>
   parse_dd_mm_yyyy parsers_on_blank (Some [32, 32, 32]) \<noteq> Some (py_strip [32, 32, 32]) \<and>
   parse_dd_mm_yyyy parsers_on_blank (Some [32, 32, 32]) \<noteq> None"
  by (simp add: parse_dd_mm_yyyy_def parsers_on_blank_def day_first_formats_def py_strip_def
      py_isspace_def)

section \<open>Output paths with a version marker\<close>

text \<open>
  Paths are byte strings. \<open>show_nat\<close> is the decimal form an f-string gives a
  non-negative integer (\<open>f"{k}"\<close>), \<open>zfill3\<close> the zero padding of \<open>f"{v:03d}"\<close>.
\<close>

definition digit_char :: "nat \<Rightarrow> char" where
  "digit_char d = char_of (48 + d)"

fun show_nat :: "nat \<Rightarrow> string" where
  "show_nat n = (if n < 10 then [digit_char n] else show_nat (n div 10) @ [digit_char (n mod 10)])"

declare show_nat.simps [simp del]

definition zfill3 :: "string \<Rightarrow> string" where
  "zfill3 s = replicate (3 - length s) CHR ''0'' @ s"

text \<open>
  \<open>os.path.splitext\<close>: the extension starts at the last dot of the last path
  component, unless that component has only leading dots before it. \<open>seps\<close> are the
  separator characters of the platform (\<open>/\<close> on POSIX, both slashes on Windows).
\<close>

definition rfind :: "string \<Rightarrow> char \<Rightarrow> int" where
  "rfind p c =
     (if c \<in> set p then int (length p) - 1 - int (length (takeWhile (\<lambda>x. x \<noteq> c) (rev p)))
      else - 1)"

function skip_leading_dots :: "string \<Rightarrow> int \<Rightarrow> int \<Rightarrow> string \<times> string" where
  "skip_leading_dots p filenameIndex dotIndex =
     (if filenameIndex < dotIndex then
        (if p ! nat filenameIndex \<noteq> CHR ''.''
         then (take (nat dotIndex) p, drop (nat dotIndex) p)
         else skip_leading_dots p (filenameIndex + 1) dotIndex)
      else (p, []))"
  by pat_completeness auto
termination
  by (relation "measure (\<lambda>(p, filenameIndex, dotIndex). nat (dotIndex - filenameIndex))") auto

declare skip_leading_dots.simps [simp del]

definition splitext :: "char list \<Rightarrow> string \<Rightarrow> string \<times> string" where
  "splitext seps p =
     (let sepIndex = foldl max (- 1) (map (rfind p) seps);
          dotIndex = rfind p CHR ''.''
      in if dotIndex > sepIndex then skip_leading_dots p (sepIndex + 1) dotIndex else (p, []))"

text \<open>
  The candidates of the two numbering schemes: \<open>f"{base}_v{v:03d}{ext}"\<close> in
  \<open>firms_merge\<close> and \<open>f"{base}_{k}{ext}"\<close> in \<open>firms_ungrd_match\<close> and
  \<open>random_absence_points\<close>.
\<close>

definition cand_v :: "string \<Rightarrow> string \<Rightarrow> nat \<Rightarrow> string" where
  "cand_v base ext v = base @ ''_v'' @ zfill3 (show_nat v) @ ext"

definition cand_k :: "string \<Rightarrow> string \<Rightarrow> nat \<Rightarrow> string" where
  "cand_k base ext k = base @ ''_'' @ show_nat k @ ext"

text \<open>
  Reading a decimal string back: distinct numbers give distinct candidates, so a file
  store with finitely many paths stops each \<open>while True\<close> probe loop.
\<close>

definition read_nat :: "string \<Rightarrow> nat" where
  "read_nat s = foldl (\<lambda>a c. 10 * a + (of_char c - 48)) 0 s"

lemma read_nat_snoc: "read_nat (s @ [c]) = 10 * read_nat s + (of_char c - 48)"
  by (simp add: read_nat_def)

lemma of_char_digit: "d < 10 \<Longrightarrow> of_char (digit_char d) - 48 = d"
  by (simp add: digit_char_def)

lemma read_show_nat: "read_nat (show_nat n) = n"
proof (induction n rule: show_nat.induct)
  case (1 n)
  show ?case
  proof (cases "n < 10")
    case True
    then show ?thesis
      by (subst show_nat.simps) (simp add: read_nat_def of_char_digit)
  next
    case False
    with 1 have "read_nat (show_nat (n div 10)) = n div 10" by simp
    with False show ?thesis
      by (subst show_nat.simps) (simp add: read_nat_snoc of_char_digit)
  qed
qed

lemma read_nat_zeros: "read_nat (replicate k CHR ''0'' @ s) = read_nat s"
proof -
  have "foldl (\<lambda>a c. 10 * a + (of_char c - 48)) (0::nat) (replicate k CHR ''0'') = 0"
    by (induction k) simp_all
  then show ?thesis by (simp add: read_nat_def)
qed

lemma read_zfill3: "read_nat (zfill3 (show_nat n)) = n"
  by (simp add: zfill3_def read_nat_zeros read_show_nat)

lemma inj_cand_v: "inj (cand_v base ext)"
proof (rule injI)
  fix a b assume "cand_v base ext a = cand_v base ext b"
  then have "zfill3 (show_nat a) = zfill3 (show_nat b)" by (simp add: cand_v_def)
  then have "read_nat (zfill3 (show_nat a)) = read_nat (zfill3 (show_nat b))" by simp
  then show "a = b" by (simp add: read_zfill3)
qed

lemma inj_cand_k: "inj (cand_k base ext)"
proof (rule injI)
  fix a b assume "cand_k base ext a = cand_k base ext b"
  then have "show_nat a = show_nat b" by (simp add: cand_k_def)
  then have "read_nat (show_nat a) = read_nat (show_nat b)" by simp
  then show "a = b" by (simp add: read_show_nat)
qed

lemma taken_from_decreases:
  assumes "inj c" and "c v \<in> set fs"
  shows "card {j. Suc v \<le> j \<and> c j \<in> set fs} < card {j. v \<le> j \<and> c j \<in> set fs}"
proof (rule psubset_card_mono)
  have "finite (c -` set fs)" using assms(1) by (simp add: finite_vimageI)
  moreover have "{j. v \<le> j \<and> c j \<in> set fs} \<subseteq> c -` set fs" by auto
  ultimately show "finite {j. v \<le> j \<and> c j \<in> set fs}" by (rule rev_finite_subset)
  have "v \<in> {j. v \<le> j \<and> c j \<in> set fs}" and "v \<notin> {j. Suc v \<le> j \<and> c j \<in> set fs}"
    using assms(2) by simp_all
  moreover have "{j. Suc v \<le> j \<and> c j \<in> set fs} \<subseteq> {j. v \<le> j \<and> c j \<in> set fs}"
    by auto
  ultimately show "{j. Suc v \<le> j \<and> c j \<in> set fs} \<subset> {j. v \<le> j \<and> c j \<in> set fs}"
    by blast
qed

text \<open>
  The file store is the finite list \<open>fs\<close> of the paths that exist;
  \<open>os.path.exists(p)\<close> is \<open>p \<in> set fs\<close>.
\<close>

function probe_v :: "string list \<Rightarrow> string \<Rightarrow> string \<Rightarrow> nat \<Rightarrow> string" where
  "probe_v fs base ext v =
     (let cand = cand_v base ext v
      in if cand \<notin> set fs then cand else probe_v fs base ext (v + 1))"
  by pat_completeness auto
termination
  by (relation "measure (\<lambda>(fs, base, ext, v). card {j. v \<le> j \<and> cand_v base ext j \<in> set fs})")
     (simp_all add: taken_from_decreases inj_cand_v)

declare probe_v.simps [simp del]

definition next_version_path :: "char list \<Rightarrow> string list \<Rightarrow> string \<Rightarrow> string" where
  "next_version_path seps fs out_shp_path =
     (if out_shp_path \<notin> set fs then out_shp_path
      else (let (base, ext) = splitext seps out_shp_path in probe_v fs base ext 2))"


function probe_k :: "string list \<Rightarrow> string \<Rightarrow> string \<Rightarrow> nat \<Rightarrow> string" where
  "probe_k fs base ext k =
     (let cand = cand_k base ext k
      in if cand \<notin> set fs then cand else probe_k fs base ext (k + 1))"
  by pat_completeness auto
termination
  by (relation "measure (\<lambda>(fs, base, ext, k). card {j. k \<le> j \<and> cand_k base ext j \<in> set fs})")
     (simp_all add: taken_from_decreases inj_cand_k)

declare probe_k.simps [simp del]

definition next_version_path_suffix_1 :: "char list \<Rightarrow> string list \<Rightarrow> string \<Rightarrow> string" where
  "next_version_path_suffix_1 seps fs out_path =
     (if out_path \<notin> set fs then out_path
      else (let (base, ext) = splitext seps out_path in probe_k fs base ext 1))"

lemma skip_leading_dots_append:
  "skip_leading_dots p i d = (base, ext) \<Longrightarrow> base @ ext = p"
proof (induction p i d rule: skip_leading_dots.induct)
  case (1 p filenameIndex dotIndex)
  from "1.prems" show ?case
    by (subst (asm) skip_leading_dots.simps) (auto split: if_splits dest: "1.IH" [rotated -1])
qed

lemma splitext_append: "splitext seps p = (base, ext) \<Longrightarrow> base @ ext = p"
  by (auto simp: splitext_def Let_def split: if_splits dest: skip_leading_dots_append)

lemma probe_v_first_free:
  "\<exists>v \<ge> v0. probe_v fs base ext v0 = cand_v base ext v \<and> cand_v base ext v \<notin> set fs \<and>
     (\<forall>j. v0 \<le> j \<and> j < v \<longrightarrow> cand_v base ext j \<in> set fs)"
proof (induction fs base ext v0 rule: probe_v.induct)
  case (1 fs base ext v)
  show ?case
  proof (cases "cand_v base ext v \<in> set fs")
    case False
    then have "probe_v fs base ext v = cand_v base ext v"
      by (subst probe_v.simps) simp
    with False show ?thesis by (intro exI [of _ v]) auto
  next
    case True
    with 1 obtain w where w: "v + 1 \<le> w" "probe_v fs base ext (v + 1) = cand_v base ext w"
      "cand_v base ext w \<notin> set fs" "\<forall>j. v + 1 \<le> j \<and> j < w \<longrightarrow> cand_v base ext j \<in> set fs"
      by auto
    from True have "probe_v fs base ext v = probe_v fs base ext (v + 1)"
      by (subst probe_v.simps) simp
    moreover have "\<forall>j. v \<le> j \<and> j < w \<longrightarrow> cand_v base ext j \<in> set fs"
    proof (intro allI impI)
      fix j assume "v \<le> j \<and> j < w"
      then show "cand_v base ext j \<in> set fs"
        using True w(4) by (cases "j = v") auto
    qed
    ultimately show ?thesis using w by (intro exI [of _ w]) auto
  qed
qed

lemma probe_k_first_free:
  "\<exists>k \<ge> k0. probe_k fs base ext k0 = cand_k base ext k \<and> cand_k base ext k \<notin> set fs \<and>
     (\<forall>j. k0 \<le> j \<and> j < k \<longrightarrow> cand_k base ext j \<in> set fs)"
proof (induction fs base ext k0 rule: probe_k.induct)
  case (1 fs base ext k)
  show ?case
  proof (cases "cand_k base ext k \<in> set fs")
    case False
    then have "probe_k fs base ext k = cand_k base ext k"
      by (subst probe_k.simps) simp
    with False show ?thesis by (intro exI [of _ k]) auto
  next
    case True
    with 1 obtain w where w: "k + 1 \<le> w" "probe_k fs base ext (k + 1) = cand_k base ext w"
      "cand_k base ext w \<notin> set fs" "\<forall>j. k + 1 \<le> j \<and> j < w \<longrightarrow> cand_k base ext j \<in> set fs"
      by auto
    from True have "probe_k fs base ext k = probe_k fs base ext (k + 1)"
      by (subst probe_k.simps) simp
    moreover have "\<forall>j. k \<le> j \<and> j < w \<longrightarrow> cand_k base ext j \<in> set fs"
    proof (intro allI impI)
      fix j assume "k \<le> j \<and> j < w"
      then show "cand_k base ext j \<in> set fs"
        using True w(4) by (cases "j = k") auto
    qed
    ultimately show ?thesis using w by (intro exI [of _ w]) auto
  qed
qed

text \<open>
  Claim C9. For every path and every finite store, each resolver returns the path
  unchanged exactly when it does not exist; its result never exists; and when the path
  exists the result is the first candidate of its own sequence that does not exist
  (\<open>_v002, _v003, ...\<close> for the merge writer, \<open>_1, _2, ...\<close> for the matcher and
  sampler writers), with the marker between the base and the extension of the path.
\<close>

theorem versioned_path_resolution:
  "(next_version_path seps fs p = p \<longleftrightarrow> p \<notin> set fs) \<and>
   (next_version_path_suffix_1 seps fs p = p \<longleftrightarrow> p \<notin> set fs) \<and>
   next_version_path seps fs p \<notin> set fs \<and>
   next_version_path_suffix_1 seps fs p \<notin> set fs \<and>
   (p \<in> set fs \<longrightarrow>
      (\<exists>base ext v k. splitext seps p = (base, ext) \<and> base @ ext = p \<and> 2 \<le> v \<and> 1 \<le> k \<and>
         next_version_path seps fs p = base @ ''_v'' @ zfill3 (show_nat v) @ ext \<and>
         (\<forall>j. 2 \<le> j \<and> j < v \<longrightarrow> base @ ''_v'' @ zfill3 (show_nat j) @ ext \<in> set fs) \<and>
         next_version_path_suffix_1 seps fs p = base @ ''_'' @ show_nat k @ ext \<and>
         (\<forall>j. 1 \<le> j \<and> j < k \<longrightarrow> base @ ''_'' @ show_nat j @ ext \<in> set fs)))"
proof (cases "p \<in> set fs")
  case False
  then show ?thesis
    by (simp add: next_version_path_def next_version_path_suffix_1_def)
next
  case True
  obtain base ext where be: "splitext seps p = (base, ext)" by (cases "splitext seps p")
  then have app: "base @ ext = p" by (rule splitext_append)
  from probe_v_first_free [of 2 fs base ext] obtain v where v: "2 \<le> v"
    "probe_v fs base ext 2 = cand_v base ext v" "cand_v base ext v \<notin> set fs"
    "\<forall>j. 2 \<le> j \<and> j < v \<longrightarrow> cand_v base ext j \<in> set fs" by auto
  from probe_k_first_free [of 1 fs base ext] obtain k where k: "1 \<le> k"
    "probe_k fs base ext 1 = cand_k base ext k" "cand_k base ext k \<notin> set fs"
    "\<forall>j. 1 \<le> j \<and> j < k \<longrightarrow> cand_k base ext j \<in> set fs" by auto
  have rv: "next_version_path seps fs p = cand_v base ext v"
    using True be v(2) by (simp add: next_version_path_def)
  have rk: "next_version_path_suffix_1 seps fs p = cand_k base ext k"
    using True be k(2) by (simp add: next_version_path_suffix_1_def)
  have "next_version_path seps fs p \<noteq> p" "next_version_path_suffix_1 seps fs p \<noteq> p"
    using True rv rk v(3) k(3) by auto
  moreover have "\<exists>base ext v k. splitext seps p = (base, ext) \<and> base @ ext = p \<and> 2 \<le> v \<and> 1 \<le> k \<and>
         next_version_path seps fs p = base @ ''_v'' @ zfill3 (show_nat v) @ ext \<and>
         (\<forall>j. 2 \<le> j \<and> j < v \<longrightarrow> base @ ''_v'' @ zfill3 (show_nat j) @ ext \<in> set fs) \<and>
         next_version_path_suffix_1 seps fs p = base @ ''_'' @ show_nat k @ ext \<and>
         (\<forall>j. 1 \<le> j \<and> j < k \<longrightarrow> base @ ''_'' @ show_nat j @ ext \<in> set fs)"
    using be app v(1,4) k(1,4) rv rk
    by (intro exI [of _ base] exI [of _ ext] exI [of _ v] exI [of _ k])
       (simp add: cand_v_def cand_k_def)
  ultimately show ?thesis using True rv rk v(3) k(3) by simp
qed

text \<open>The examples of the specification, run on the model.\<close>

lemma version_examples:
  "next_version_path ''/'' [''out.shp''] ''out.shp'' = ''out_v002.shp''"
  "next_version_path ''/'' [''out.shp'', ''out_v002.shp''] ''out.shp'' = ''out_v003.shp''"
  "next_version_path ''/'' [''other.shp''] ''out.shp'' = ''out.shp''"
  "next_version_path_suffix_1 ''/'' [''out.shp'', ''out_1.shp''] ''out.shp'' = ''out_2.shp''"
  by code_simp+

theorem versioned_path_resolution_witness:
  "''dir.d/out.shp'' \<in> set [''dir.d/out.shp'', ''dir.d/out_v002.shp'', ''dir.d/out_1.shp''] \<and>
   splitext ''/'' ''dir.d/out.shp'' = (''dir.d/out'', ''.shp'') \<and>
   next_version_path ''/'' [''dir.d/out.shp'', ''dir.d/out_v002.shp'', ''dir.d/out_1.shp'']
      ''dir.d/out.shp'' = ''dir.d/out_v003.shp'' \<and>
   next_version_path_suffix_1 ''/'' [''dir.d/out.shp'', ''dir.d/out_v002.shp'', ''dir.d/out_1.shp'']
      ''dir.d/out.shp'' = ''dir.d/out_2.shp'' \<and>
   next_version_path ''/'' [''dir.d/out.shp'', ''dir.d/out_v002.shp'', ''dir.d/out_1.shp'']
      ''dir.d/out.shp'' \<notin> set [''dir.d/out.shp'', ''dir.d/out_v002.shp'', ''dir.d/out_1.shp'']"
proof -
  have e: "splitext ''/'' ''dir.d/out.shp'' = (''dir.d/out'', ''.shp'')"
    "next_version_path ''/'' [''dir.d/out.shp'', ''dir.d/out_v002.shp'', ''dir.d/out_1.shp'']
      ''dir.d/out.shp'' = ''dir.d/out_v003.shp''"
    "next_version_path_suffix_1 ''/'' [''dir.d/out.shp'', ''dir.d/out_v002.shp'', ''dir.d/out_1.shp'']
      ''dir.d/out.shp'' = ''dir.d/out_2.shp''"
    by code_simp+
  show ?thesis
    using versioned_path_resolution [of "''/''"
        "[''dir.d/out.shp'', ''dir.d/out_v002.shp'', ''dir.d/out_1.shp'']" "''dir.d/out.shp''"] e
    by simp
qed

section \<open>Text normaliser\<close>

text \<open>
  \<open>normalize_text\<close> (the same function in \<open>firms_ungrd_match\<close> and
  \<open>firms_admin_join\<close>) reads three tables of the Unicode character database: the
  uppercase mapping of \<open>str.upper\<close>, the full compatibility decomposition of a code
  point (NFKD) and the canonical combining class. The tables are a parameter.
\<close>

record ucd =
  upper_map :: "nat \<Rightarrow> nat list"
  decomposition :: "nat \<Rightarrow> nat list"
  combining :: "nat \<Rightarrow> nat"

definition py_upper :: "ucd \<Rightarrow> ustr \<Rightarrow> ustr" where
  "py_upper U s = concat (map (upper_map U) s)"

text \<open>
  NFKD replaces every code point by its decomposition and then reorders adjacent
  combining marks among themselves; the next step of \<open>normalize_text\<close> deletes every
  combining mark, so that reordering is left out.
\<close>

definition nfkd :: "ucd \<Rightarrow> ustr \<Rightarrow> ustr" where
  "nfkd U s = concat (map (decomposition U) s)"

text \<open>\<open>re.sub(r"\\s+", " ", s)\<close>: every maximal run of whitespace becomes one space.\<close>

function collapse_ws :: "ustr \<Rightarrow> ustr" where
  "collapse_ws [] = []"
| "collapse_ws (c # cs) =
     (if py_isspace c then 32 # collapse_ws (dropWhile py_isspace cs)
      else c # collapse_ws cs)"
  by pat_completeness auto
termination
  by (relation "measure length") (auto simp: length_dropWhile_le less_Suc_eq_le)

definition normalize_text :: "ucd \<Rightarrow> ustr option \<Rightarrow> ustr option" where
  "normalize_text U val =
     (case val of
        None \<Rightarrow> None
      | Some v \<Rightarrow>
          (let s = py_strip (py_upper U v);
               s = nfkd U s;
               s = filter (\<lambda>ch. combining U ch = 0) s;
               s = py_strip (collapse_ws s)
           in Some s))"

text \<open>
  The entries of the Unicode character database for the code points U+0000 to U+00FF
  (Basic Latin and Latin-1 Supplement), for the code points outside that range that
  uppercasing or decomposing one of them gives, and for the combining marks their
  decompositions contain. Other code points are outside this excerpt.
\<close>

definition latin1_decompositions :: "(nat \<times> nat list) list" where
  "latin1_decompositions =
     [(160, [32]), (168, [32, 776]), (170, [97]), (175, [32, 772]), (178, [50]), (179, [51]),
      (180, [32, 769]), (181, [956]), (184, [32, 807]), (185, [49]), (186, [111]),
      (188, [49, 8260, 52]), (189, [49, 8260, 50]), (190, [51, 8260, 52]),
      (192, [65, 768]), (193, [65, 769]), (194, [65, 770]), (195, [65, 771]), (196, [65, 776]),
      (197, [65, 778]), (199, [67, 807]), (200, [69, 768]), (201, [69, 769]), (202, [69, 770]),
      (203, [69, 776]), (204, [73, 768]), (205, [73, 769]), (206, [73, 770]), (207, [73, 776]),
      (209, [78, 771]), (210, [79, 768]), (211, [79, 769]), (212, [79, 770]), (213, [79, 771]),
      (214, [79, 776]), (217, [85, 768]), (218, [85, 769]), (219, [85, 770]), (220, [85, 776]),
      (221, [89, 769]),
      (224, [97, 768]), (225, [97, 769]), (226, [97, 770]), (227, [97, 771]), (228, [97, 776]),
      (229, [97, 778]), (231, [99, 807]), (232, [101, 768]), (233, [101, 769]),
      (234, [101, 770]), (235, [101, 776]), (236, [105, 768]), (237, [105, 769]),
      (238, [105, 770]), (239, [105, 776]), (241, [110, 771]), (242, [111, 768]),
      (243, [111, 769]), (244, [111, 770]), (245, [111, 771]), (246, [111, 776]),
      (249, [117, 768]), (250, [117, 769]), (251, [117, 770]), (252, [117, 776]),
      (253, [121, 769]), (255, [121, 776]), (376, [89, 776])]"

definition latin1_upper :: "nat \<Rightarrow> nat list" where
  "latin1_upper c =
     (if 97 \<le> c \<and> c \<le> 122 then [c - 32]
      else if c = 181 then [924]
      else if c = 223 then [83, 83]
      else if 224 \<le> c \<and> c \<le> 254 \<and> c \<noteq> 247 then [c - 32]
      else if c = 255 then [376]
      else if c = 956 then [924]
      else [c])"

definition latin1_combining :: "nat \<Rightarrow> nat" where
  "latin1_combining c =
     (if c \<in> {768, 769, 770, 771, 772, 776, 778} then 230 else if c = 807 then 202 else 0)"

definition ucd_latin1 :: ucd where
  "ucd_latin1 =
     \<lparr>upper_map = latin1_upper,
      decomposition = (\<lambda>c. case map_of latin1_decompositions c of Some d \<Rightarrow> d | None \<Rightarrow> [c]),
      combining = latin1_combining\<rparr>"


lemma normalize_text_steps:
  assumes "py_strip (py_upper U v) = s1"
    and "nfkd U s1 = s2"
    and "filter (\<lambda>ch. combining U ch = 0) s2 = s3"
    and "py_strip (collapse_ws s3) = s4"
  shows "normalize_text U (Some v) = Some s4"
  using assms by (simp add: normalize_text_def)

lemma normalize_ordinal_first: "normalize_text ucd_latin1 (Some [78, 186]) = Some [78, 111]"
proof (rule normalize_text_steps)
  show "py_strip (py_upper ucd_latin1 [78, 186]) = [78, 186]"
    by (simp add: ucd_latin1_def latin1_upper_def py_upper_def py_strip_def py_isspace_def)
  show "nfkd ucd_latin1 [78, 186] = [78, 111]"
    by (simp add: ucd_latin1_def nfkd_def latin1_decompositions_def)
  show "filter (\<lambda>ch. combining ucd_latin1 ch = 0) [78, 111] = [78, 111]"
    by (simp add: ucd_latin1_def latin1_combining_def)
  show "py_strip (collapse_ws [78, 111]) = [78, 111]"
    by (simp add: py_strip_def py_isspace_def)
qed

lemma normalize_ordinal_second: "normalize_text ucd_latin1 (Some [78, 111]) = Some [78, 79]"
proof (rule normalize_text_steps)
  show "py_strip (py_upper ucd_latin1 [78, 111]) = [78, 79]"
    by (simp add: ucd_latin1_def latin1_upper_def py_upper_def py_strip_def py_isspace_def)
  show "nfkd ucd_latin1 [78, 79] = [78, 79]"
    by (simp add: ucd_latin1_def nfkd_def latin1_decompositions_def)
  show "filter (\<lambda>ch. combining ucd_latin1 ch = 0) [78, 79] = [78, 79]"
    by (simp add: ucd_latin1_def latin1_combining_def)
  show "py_strip (collapse_ws [78, 79]) = [78, 79]"
    by (simp add: py_strip_def py_isspace_def)
qed

lemma normalize_bogota: "normalize_text ucd_latin1 (Some [66, 111, 103, 111, 116, 225, 32, 32, 68, 46, 67, 46, 32])
  = Some [66, 79, 71, 79, 84, 65, 32, 68, 46, 67, 46]"
proof (rule normalize_text_steps)
  show "py_strip (py_upper ucd_latin1 [66, 111, 103, 111, 116, 225, 32, 32, 68, 46, 67, 46, 32])
      = [66, 79, 71, 79, 84, 193, 32, 32, 68, 46, 67, 46]"
    by (simp add: ucd_latin1_def latin1_upper_def py_upper_def py_strip_def py_isspace_def)
  show "nfkd ucd_latin1 [66, 79, 71, 79, 84, 193, 32, 32, 68, 46, 67, 46]
      = [66, 79, 71, 79, 84, 65, 769, 32, 32, 68, 46, 67, 46]"
    by (simp add: ucd_latin1_def nfkd_def latin1_decompositions_def)
  show "filter (\<lambda>ch. combining ucd_latin1 ch = 0) [66, 79, 71, 79, 84, 65, 769, 32, 32, 68, 46, 67, 46]
      = [66, 79, 71, 79, 84, 65, 32, 32, 68, 46, 67, 46]"
    by (simp add: ucd_latin1_def latin1_combining_def)
  show "py_strip (collapse_ws [66, 79, 71, 79, 84, 65, 32, 32, 68, 46, 67, 46])
      = [66, 79, 71, 79, 84, 65, 32, 68, 46, 67, 46]"
    by (simp add: py_strip_def py_isspace_def)
qed

text \<open>
  Claim C8. A null value gives null, and the specification's example \<open>Bogota  D.C.\<close> (with an acute accent on the
  last a, two inner spaces and one trailing space) gives \<open>BOGOTA D.C.\<close>.
  The normaliser is not idempotent: it uppercases before it decomposes, so a letter that
  only the compatibility decomposition produces stays lowercase. On the letter N followed by the masculine ordinal indicator
  (U+004E U+00BA) the first application gives \<open>No\<close> and the second \<open>NO\<close>.
\<close>

theorem normalize_text_not_idempotent:
  "normalize_text U None = None \<and>
   normalize_text ucd_latin1 (Some [66, 111, 103, 111, 116, 225, 32, 32, 68, 46, 67, 46, 32])
     = Some [66, 79, 71, 79, 84, 65, 32, 68, 46, 67, 46] \<and>
   normalize_text ucd_latin1 (Some [78, 186]) = Some [78, 111] \<and>
   normalize_text ucd_latin1 (normalize_text ucd_latin1 (Some [78, 186])) = Some [78, 79] \<and>
   normalize_text ucd_latin1 (normalize_text ucd_latin1 (Some [78, 186]))
     \<noteq> normalize_text ucd_latin1 (Some [78, 186])"
  by (simp add: normalize_bogota normalize_ordinal_first normalize_ordinal_second)
     (simp add: normalize_text_def)

section \<open>firms\_merge: deduplication that prefers one instrument\<close>

text \<open>
  \<open>deduplicate_prefer_instrument\<close> works on any row type: \<open>instrument_col\<close> reads
  the \<open>str\<close> form of the instrument cell and \<open>keys\<close> the tuple of the key cells.
  The column \<open>_priority\<close> is 0 where the uppercased instrument equals the uppercased
  preferred value and 1 elsewhere.
\<close>

definition priority :: "ucd \<Rightarrow> ('r \<Rightarrow> ustr) \<Rightarrow> ustr \<Rightarrow> 'r \<Rightarrow> nat" where
  "priority U instrument_col prefer_value r =
     (if py_upper U (instrument_col r) = py_upper U prefer_value then 0 else 1)"

text \<open>
  \<open>gdf.sort_values(by=["_priority"])\<close> is a call into the table library with one sort
  column and no \<open>kind\<close> argument, so the library's default algorithm runs, and that
  algorithm is not stable: the result is a rearrangement of the rows in which the
  priorities ascend, and the order among rows of equal priority is not determined.
  The sort is therefore an argument of the model, and \<open>sorts_by_key\<close> is all that is
  known about it.
\<close>

definition sorts_by_key :: "(('r \<Rightarrow> nat) \<Rightarrow> 'r list \<Rightarrow> 'r list) \<Rightarrow> bool" where
  "sorts_by_key sort_values \<longleftrightarrow>
     (\<forall>by gdf. mset (sort_values by gdf) = mset gdf \<and> sorted (map by (sort_values by gdf)))"

text \<open>
  \<open>drop_duplicates(subset=keys, keep="first")\<close>: a row is dropped when an earlier row
  has the same key cells (null cells count as equal).
\<close>

fun drop_duplicates_seen :: "('r \<Rightarrow> 'k) \<Rightarrow> 'k list \<Rightarrow> 'r list \<Rightarrow> 'r list" where
  "drop_duplicates_seen keys seen [] = []"
| "drop_duplicates_seen keys seen (r # rs) =
     (if keys r \<in> set seen then drop_duplicates_seen keys seen rs
      else r # drop_duplicates_seen keys (keys r # seen) rs)"

definition drop_duplicates :: "('r \<Rightarrow> 'k) \<Rightarrow> 'r list \<Rightarrow> 'r list" where
  "drop_duplicates keys gdf = drop_duplicates_seen keys [] gdf"

text \<open>
  The function returns the table without the helper column and the number of rows
  dropped.
\<close>

definition deduplicate_prefer_instrument ::
  "(('r \<Rightarrow> nat) \<Rightarrow> 'r list \<Rightarrow> 'r list) \<Rightarrow> ucd \<Rightarrow> ('r \<Rightarrow> 'k) \<Rightarrow> ('r \<Rightarrow> ustr) \<Rightarrow> ustr \<Rightarrow> 'r list
   \<Rightarrow> 'r list \<times> int" where
  "deduplicate_prefer_instrument sort_values U keys instrument_col prefer_value gdf =
     (let before = int (length gdf);
          gdf2 = drop_duplicates keys (sort_values (priority U instrument_col prefer_value) gdf);
          dropped = before - int (length gdf2)
      in (gdf2, dropped))"

text \<open>
  Two sorts that meet \<open>sorts_by_key\<close>: insertion sort, which keeps the table order among
  rows of equal priority, and insertion sort of the reversed table, which returns rows
  of equal priority in the opposite order.
\<close>

definition sort_ties_reversed :: "('r \<Rightarrow> nat) \<Rightarrow> 'r list \<Rightarrow> 'r list" where
  "sort_ties_reversed by gdf = sort_key by (rev gdf)"

lemma set_dds: "keys ` set (drop_duplicates_seen keys seen rs) = keys ` set rs - set seen"
  by (induction rs arbitrary: seen) auto

lemma dds_subset: "set (drop_duplicates_seen keys seen rs) \<subseteq> set rs"
  by (induction rs arbitrary: seen) auto

lemma distinct_dds: "distinct (map keys (drop_duplicates_seen keys seen rs))"
proof (induction rs arbitrary: seen)
  case Nil
  show ?case by simp
next
  case (Cons r rs)
  have "keys r \<notin> keys ` set (drop_duplicates_seen keys (keys r # seen) rs)"
    by (simp add: set_dds)
  with Cons show ?case by simp
qed

lemma find_dds:
  "k \<notin> set seen \<Longrightarrow>
   find (\<lambda>x. keys x = k) (drop_duplicates_seen keys seen rs) = find (\<lambda>x. keys x = k) rs"
proof (induction rs arbitrary: seen)
  case Nil
  show ?case by simp
next
  case (Cons r rs)
  show ?case
  proof (cases "keys r = k")
    case True
    with Cons.prems show ?thesis by simp
  next
    case False
    with Cons show ?thesis by simp
  qed
qed

lemma length_dds: "length (drop_duplicates_seen keys seen rs) \<le> length rs"
  by (induction rs arbitrary: seen) (auto simp: le_SucI)

lemma find_first_in_sorted:
  "find P xs = Some r \<Longrightarrow> sorted (map f xs) \<Longrightarrow> x \<in> set xs \<Longrightarrow> P x \<Longrightarrow> f r \<le> f x"
proof (induction xs)
  case Nil
  then show ?case by simp
next
  case (Cons y ys)
  show ?case
  proof (cases "P y")
    case True
    with Cons.prems(1) have "r = y" by simp
    with Cons.prems(2,3) show ?thesis by auto
  next
    case False
    with Cons.prems have "find P ys = Some r" "sorted (map f ys)" "x \<in> set ys" by auto
    with Cons.IH Cons.prems(4) show ?thesis by blast
  qed
qed

lemma find_Some_member: "find P xs = Some r \<Longrightarrow> r \<in> set xs \<and> P r"
  by (induction xs) (auto split: if_splits)

lemma find_distinct_key:
  "distinct (map keys xs) \<Longrightarrow> r \<in> set xs \<Longrightarrow> find (\<lambda>y. keys y = keys r) xs = Some r"
proof (induction xs)
  case Nil
  then show ?case by simp
next
  case (Cons y ys)
  show ?case
  proof (cases "r = y")
    case True
    then show ?thesis by simp
  next
    case False
    with Cons.prems have r: "r \<in> set ys" and d: "distinct (map keys ys)"
      and "keys y \<notin> keys ` set ys" by auto
    then have "keys y \<noteq> keys r" by auto
    with Cons.IH [OF d r] show ?thesis by simp
  qed
qed

text \<open>
  Claim C3, as far as the code supports it. Whatever sort the library runs, as long as
  it rearranges the rows into ascending priority: the priority is 0 exactly for the
  rows whose uppercased instrument equals the uppercased preferred value and 1 for the
  others; the result is the sorted table with every row dropped that has an earlier
  row with the same keys; it holds one row for each key combination of the input, each
  of them a row of the input, namely the first row with those keys in the sorted
  table; that row has the least priority among the input rows with its keys, so it is
  a row of the preferred instrument whenever the input has one with those keys; and
  the reported count is the input row count minus the output row count, never
  negative. Which of several rows with equal keys and equal priority is kept is not
  determined.
\<close>

theorem deduplicate_prefer_sorted_any_order:
  assumes "sorts_by_key sort_values"
  shows
  "(\<forall>r. priority U ic pv r = (if py_upper U (ic r) = py_upper U pv then 0 else 1)) \<and>
   sorted (map (priority U ic pv) (sort_values (priority U ic pv) gdf)) \<and>
   mset (sort_values (priority U ic pv) gdf) = mset gdf \<and>
   fst (deduplicate_prefer_instrument sort_values U keys ic pv gdf)
     = drop_duplicates keys (sort_values (priority U ic pv) gdf) \<and>
   distinct (map keys (fst (deduplicate_prefer_instrument sort_values U keys ic pv gdf))) \<and>
   keys ` set (fst (deduplicate_prefer_instrument sort_values U keys ic pv gdf)) = keys ` set gdf \<and>
   set (fst (deduplicate_prefer_instrument sort_values U keys ic pv gdf)) \<subseteq> set gdf \<and>
   (\<forall>k. find (\<lambda>x. keys x = k) (fst (deduplicate_prefer_instrument sort_values U keys ic pv gdf))
        = find (\<lambda>x. keys x = k) (sort_values (priority U ic pv) gdf)) \<and>
   (\<forall>r \<in> set (fst (deduplicate_prefer_instrument sort_values U keys ic pv gdf)).
      \<forall>x \<in> set gdf. keys x = keys r \<longrightarrow> priority U ic pv r \<le> priority U ic pv x) \<and>
   (\<forall>r \<in> set (fst (deduplicate_prefer_instrument sort_values U keys ic pv gdf)).
      (\<exists>x \<in> set gdf. keys x = keys r \<and> py_upper U (ic x) = py_upper U pv)
      \<longrightarrow> py_upper U (ic r) = py_upper U pv) \<and>
   snd (deduplicate_prefer_instrument sort_values U keys ic pv gdf)
     = int (length gdf)
       - int (length (fst (deduplicate_prefer_instrument sort_values U keys ic pv gdf))) \<and>
   0 \<le> snd (deduplicate_prefer_instrument sort_values U keys ic pv gdf)"
proof -
  let ?p = "priority U ic pv"
  let ?S = "sort_values ?p gdf"
  let ?out = "drop_duplicates keys ?S"
  have out: "fst (deduplicate_prefer_instrument sort_values U keys ic pv gdf) = ?out"
    by (simp add: deduplicate_prefer_instrument_def Let_def)
  have dropped: "snd (deduplicate_prefer_instrument sort_values U keys ic pv gdf)
      = int (length gdf) - int (length ?out)"
    by (simp add: deduplicate_prefer_instrument_def Let_def)
  from assms have msetS: "mset ?S = mset gdf" and sortedS: "sorted (map ?p ?S)"
    by (simp_all add: sorts_by_key_def)
  from msetS have setS: "set ?S = set gdf" by (rule mset_eq_setD)
  from msetS have lenS: "length ?S = length gdf" by (rule mset_eq_length)
  have 1: "\<forall>r. ?p r = (if py_upper U (ic r) = py_upper U pv then 0 else 1)"
    by (simp add: priority_def)
  have 5: "distinct (map keys ?out)"
    by (simp add: drop_duplicates_def distinct_dds)
  have 6: "keys ` set ?out = keys ` set gdf"
    by (simp add: drop_duplicates_def set_dds setS)
  have 7: "set ?out \<subseteq> set gdf"
    using dds_subset [of keys "[]" ?S] by (simp add: drop_duplicates_def setS)
  have 8: "\<forall>k. find (\<lambda>x. keys x = k) ?out = find (\<lambda>x. keys x = k) ?S"
    by (simp add: drop_duplicates_def find_dds)
  have 9: "\<forall>r \<in> set ?out. \<forall>x \<in> set gdf. keys x = keys r \<longrightarrow> ?p r \<le> ?p x"
  proof (intro ballI impI)
    fix r x assume r: "r \<in> set ?out" and x: "x \<in> set gdf" and k: "keys x = keys r"
    from 5 r have "find (\<lambda>y. keys y = keys r) ?out = Some r"
      by (rule find_distinct_key)
    with 8 have "find (\<lambda>y. keys y = keys r) ?S = Some r" by simp
    from find_first_in_sorted [OF this sortedS, of x] x k setS show "?p r \<le> ?p x" by simp
  qed
  have 10: "\<forall>r \<in> set ?out. (\<exists>x \<in> set gdf. keys x = keys r \<and> py_upper U (ic x) = py_upper U pv)
      \<longrightarrow> py_upper U (ic r) = py_upper U pv"
  proof (intro ballI impI)
    fix r assume r: "r \<in> set ?out"
      and "\<exists>x \<in> set gdf. keys x = keys r \<and> py_upper U (ic x) = py_upper U pv"
    then obtain x where x: "x \<in> set gdf" "keys x = keys r" "?p x = 0"
      by (auto simp: priority_def)
    with 9 r have "?p r \<le> 0" by fastforce
    then show "py_upper U (ic r) = py_upper U pv"
      by (simp add: priority_def split: if_splits)
  qed
  have 11: "0 \<le> int (length gdf) - int (length ?out)"
    using length_dds [of keys "[]" ?S] by (simp add: drop_duplicates_def lenS)
  show ?thesis
    unfolding out dropped using 1 sortedS msetS 5 6 7 8 9 10 11 by (intro conjI) simp_all
qed


lemma sorts_by_key_sort_key: "sorts_by_key sort_key"
  by (simp add: sorts_by_key_def)

lemma sorts_by_key_ties_reversed: "sorts_by_key sort_ties_reversed"
  by (simp add: sorts_by_key_def sort_ties_reversed_def)

lemma dedup_example:
  "deduplicate_prefer_instrument sort_key ucd_latin1 fst snd [109, 111, 100, 105, 115]
     [(1::nat, [86, 73, 73, 82, 83]), (1, [77, 79, 68, 73, 83]), (2, [77, 79, 68, 73, 83])]
   = ([(1, [77, 79, 68, 73, 83]), (2, [77, 79, 68, 73, 83])], 1)"
  by (simp add: deduplicate_prefer_instrument_def drop_duplicates_def
      priority_def py_upper_def ucd_latin1_def latin1_upper_def)

theorem deduplicate_prefer_sorted_any_order_witness:
  "sorts_by_key (sort_key :: (nat \<times> ustr \<Rightarrow> nat) \<Rightarrow> (nat \<times> ustr) list \<Rightarrow> (nat \<times> ustr) list) \<and>
   fst (deduplicate_prefer_instrument sort_key ucd_latin1 fst snd [109, 111, 100, 105, 115]
     [(1::nat, [86, 73, 73, 82, 83]), (1, [77, 79, 68, 73, 83]), (2, [77, 79, 68, 73, 83])])
     = [(1, [77, 79, 68, 73, 83]), (2, [77, 79, 68, 73, 83])] \<and>
   snd (deduplicate_prefer_instrument sort_key ucd_latin1 fst snd [109, 111, 100, 105, 115]
     [(1::nat, [86, 73, 73, 82, 83]), (1, [77, 79, 68, 73, 83]), (2, [77, 79, 68, 73, 83])]) = 1 \<and>
   distinct (map fst (fst (deduplicate_prefer_instrument sort_key ucd_latin1 fst snd
     [109, 111, 100, 105, 115]
     [(1::nat, [86, 73, 73, 82, 83]), (1, [77, 79, 68, 73, 83]), (2, [77, 79, 68, 73, 83])]))) \<and>
   py_upper ucd_latin1 (snd (1::nat, [77, 79, 68, 73, 83])) = py_upper ucd_latin1 [109, 111, 100, 105, 115]"
  using deduplicate_prefer_sorted_any_order [OF sorts_by_key_sort_key,
      of ucd_latin1 snd "[109, 111, 100, 105, 115]"
      "[(1::nat, [86, 73, 73, 82, 83]), (1, [77, 79, 68, 73, 83]), (2, [77, 79, 68, 73, 83])]" fst]
    dedup_example sorts_by_key_sort_key
  by (simp add: py_upper_def ucd_latin1_def latin1_upper_def)

lemma dedup_ties_reversed:
  "deduplicate_prefer_instrument sort_ties_reversed ucd_latin1 (\<lambda>r. fst (snd r)) (\<lambda>r. snd (snd r))
     [77, 79, 68, 73, 83]
     [(0::nat, 7::nat, [86, 73, 73, 82, 83]), (Suc 0, 7, [86, 73, 73, 82, 83]),
      (2, 7, [77, 79, 68, 73, 83]), (3, 7, [77, 79, 68, 73, 83])]
   = ([(3, 7, [77, 79, 68, 73, 83])], 3)"
  by (simp add: deduplicate_prefer_instrument_def drop_duplicates_def sort_ties_reversed_def
      priority_def py_upper_def ucd_latin1_def latin1_upper_def)

text \<open>
  Claim C3 as the specification words it says the sort keeps the original order among
  rows of equal rank, so that the first encountered row of the best rank survives.
  With four rows of one key, instruments VIIRS, VIIRS, MODIS, MODIS and MODIS
  preferred, a sort that meets everything the library promises keeps the row with
  identifier 3, although the first row of rank 0 with that key is the one with
  identifier 2.
\<close>

theorem later_same_rank_row_survives:
  "sorts_by_key (sort_ties_reversed ::
      (nat \<times> nat \<times> ustr \<Rightarrow> nat) \<Rightarrow> (nat \<times> nat \<times> ustr) list \<Rightarrow> (nat \<times> nat \<times> ustr) list) \<and>
   deduplicate_prefer_instrument sort_ties_reversed ucd_latin1 (\<lambda>r. fst (snd r)) (\<lambda>r. snd (snd r))
     [77, 79, 68, 73, 83]
     [(0::nat, 7::nat, [86, 73, 73, 82, 83]), (Suc 0, 7, [86, 73, 73, 82, 83]),
      (2, 7, [77, 79, 68, 73, 83]), (3, 7, [77, 79, 68, 73, 83])]
   = ([(3, 7, [77, 79, 68, 73, 83])], 3) \<and>
   find (\<lambda>r. priority ucd_latin1 (\<lambda>r. snd (snd r)) [77, 79, 68, 73, 83] r = 0 \<and> fst (snd r) = 7)
     [(0::nat, 7::nat, [86, 73, 73, 82, 83]), (Suc 0, 7, [86, 73, 73, 82, 83]),
      (2, 7, [77, 79, 68, 73, 83]), (3, 7, [77, 79, 68, 73, 83])]
   = Some (2, 7, [77, 79, 68, 73, 83]) \<and>
   priority ucd_latin1 (\<lambda>r. snd (snd r)) [77, 79, 68, 73, 83] (3::nat, 7::nat, [77, 79, 68, 73, 83])
   = priority ucd_latin1 (\<lambda>r. snd (snd r)) [77, 79, 68, 73, 83] (2::nat, 7::nat, [77, 79, 68, 73, 83])"
  by (simp add: dedup_ties_reversed sorts_by_key_ties_reversed)
     (simp add: priority_def py_upper_def ucd_latin1_def latin1_upper_def)

section \<open>firms\_ungrd\_match: nearest-date matching\<close>

text \<open>
  A pandas timestamp is a count of nanoseconds; a null date (\<open>NaT\<close>) is \<open>None\<close>.
  The records hold the columns the matcher reads: the normalised department and
  municipality (null where \<open>normalize_text\<close> gave null) and the date.
\<close>

type_synonym timestamp = int

record firms_point =
  depto_std :: "ustr option"
  mpnombre_s_std :: "ustr option"
  fecha_FIRMS :: "timestamp option"

record ungrd_event =
  DEPTO_std :: "ustr option"
  MUNICIPIO_std :: "ustr option"
  FECHA :: "timestamp option"

record candidate =
  idx_firms :: nat
  cand_fecha_FIRMS :: "timestamp option"
  cand_FECHA :: "timestamp option"

text \<open>
  \<open>DataFrame.merge(..., how="left")\<close>: every left row, in order, paired with each right
  row of equal key, in order, or once with nulls when there is none. Null keys are equal
  to each other, as in pandas.
\<close>

definition left_merge :: "('a \<Rightarrow> 'k) \<Rightarrow> ('b \<Rightarrow> 'k) \<Rightarrow> 'a list \<Rightarrow> 'b list \<Rightarrow> ('a \<times> 'b option) list" where
  "left_merge left_on right_on left right =
     concat (map (\<lambda>a. case filter (\<lambda>b. right_on b = left_on a) right of
                          [] \<Rightarrow> [(a, None)]
                        | bs \<Rightarrow> map (\<lambda>b. (a, Some b)) bs) left)"

text \<open>\<open>reset_index\<close> numbers the points from 0: the column \<open>idx_firms\<close>.\<close>

definition reset_index :: "'a list \<Rightarrow> (nat \<times> 'a) list" where
  "reset_index gdf = zip [0..<length gdf] gdf"

definition build_candidates ::
  "firms_point list \<Rightarrow> ungrd_event list \<Rightarrow> candidate list \<times> (nat \<times> firms_point) list" where
  "build_candidates gdf_firms df_ungrd =
     (let gdf_firms_reset = reset_index gdf_firms;
          merged = map (\<lambda>((i, p), e).
                      \<lparr>idx_firms = i, cand_fecha_FIRMS = fecha_FIRMS p,
                       cand_FECHA = (case e of None \<Rightarrow> None | Some ev \<Rightarrow> FECHA ev)\<rparr>)
                    (left_merge (\<lambda>(i, p). (depto_std p, mpnombre_s_std p))
                                (\<lambda>ev. (DEPTO_std ev, MUNICIPIO_std ev))
                                gdf_firms_reset df_ungrd)
      in (merged, gdf_firms_reset))"

text \<open>
  \<open>(fecha_FIRMS - FECHA).dt.days\<close>: the whole days of the difference, rounded down;
  null when either date is null.
\<close>

definition ns_per_day :: int where
  "ns_per_day = 86400000000000"

definition dif_dias :: "candidate \<Rightarrow> int option" where
  "dif_dias c =
     (case (cand_fecha_FIRMS c, cand_FECHA c) of
        (Some p, Some e) \<Rightarrow> Some ((p - e) div ns_per_day)
      | _ \<Rightarrow> None)"

definition dif_dias_abs :: "candidate \<Rightarrow> int option" where
  "dif_dias_abs c = map_option abs (dif_dias c)"

record match_row =
  match_idx_firms :: nat
  fecha_UNGRD_match :: "timestamp option"
  dif_dias_min :: "int option"
  match_dif_dias_abs :: "int option"
  tipo_coincidencia :: string

text \<open>
  \<open>sort_values(["idx_firms", "dif_dias_abs"])\<close> orders by point and then by absolute
  difference, nulls last, keeping the order of equal rows.
  \<open>groupby("idx_firms").first()\<close> takes, for every point in ascending order and for
  every column, the first value of the group that is not null.
\<close>

definition sort_key_idx_abs :: "candidate \<Rightarrow> nat \<times> bool \<times> int" where
  "sort_key_idx_abs c =
     (idx_firms c, dif_dias_abs c = None, (case dif_dias_abs c of Some a \<Rightarrow> a | None \<Rightarrow> 0))"

definition first_notnull :: "'a option list \<Rightarrow> 'a option" where
  "first_notnull col = (case filter (\<lambda>v. v \<noteq> None) col of [] \<Rightarrow> None | v # _ \<Rightarrow> v)"

text \<open>The label of a best row; \<open>show_int\<close> is \<open>f"{window_days}"\<close>.\<close>

definition show_int :: "int \<Rightarrow> string" where
  "show_int n = (if n < 0 then CHR ''-'' # show_nat (nat (- n)) else show_nat (nat n))"

definition tipo :: "int \<Rightarrow> int option \<Rightarrow> int option \<Rightarrow> string" where
  "tipo window_days dif dif_abs =
     (let coincidencia_exacta = (dif = Some 0);
          coincidencia_ventana =
            (\<not> coincidencia_exacta \<and> (case dif_abs of Some a \<Rightarrow> a \<le> window_days | None \<Rightarrow> False))
      in if coincidencia_exacta then ''exacta''
         else if coincidencia_ventana then ''ventana_'' @ show_int window_days @ ''dias''
         else ''sin_coincidencia'')"

definition first_of_group :: "int \<Rightarrow> nat \<Rightarrow> candidate list \<Rightarrow> match_row" where
  "first_of_group window_days i g =
     (let d = first_notnull (map dif_dias g);
          a = first_notnull (map dif_dias_abs g)
      in \<lparr>match_idx_firms = i,
          fecha_UNGRD_match = first_notnull (map cand_FECHA g),
          dif_dias_min = d,
          match_dif_dias_abs = a,
          tipo_coincidencia = tipo window_days d a\<rparr>)"

definition groupby_first :: "int \<Rightarrow> candidate list \<Rightarrow> match_row list" where
  "groupby_first window_days rows =
     map (\<lambda>i. first_of_group window_days i (filter (\<lambda>c. idx_firms c = i) rows))
         (sort (remdups (map idx_firms rows)))"

definition best_match_per_point :: "candidate list \<Rightarrow> int \<Rightarrow> match_row list" where
  "best_match_per_point merged window_days =
     (let valid = filter (\<lambda>c. cand_FECHA c \<noteq> None) merged
      in if length valid = 0 then
           map (\<lambda>i. \<lparr>match_idx_firms = i, fecha_UNGRD_match = None, dif_dias_min = None,
                     match_dif_dias_abs = None, tipo_coincidencia = ''sin_coincidencia''\<rparr>)
               (drop_duplicates (\<lambda>i. i) (map idx_firms merged))
         else groupby_first window_days (sort_key sort_key_idx_abs valid))"

text \<open>
  \<open>attach_matches\<close>: the match columns joined to the index column, the label filled
  with \<open>sin_coincidencia\<close> where it is null, and the result joined to the points.
\<close>

record attached =
  att_fecha_UNGRD_match :: "timestamp option"
  att_dif_dias_min :: "int option"
  att_dif_dias_abs :: "int option"
  att_tipo_coincidencia :: string

definition fillna_tipo :: "match_row option \<Rightarrow> attached" where
  "fillna_tipo m =
     (case m of
        None \<Rightarrow> \<lparr>att_fecha_UNGRD_match = None, att_dif_dias_min = None, att_dif_dias_abs = None,
                 att_tipo_coincidencia = ''sin_coincidencia''\<rparr>
      | Some r \<Rightarrow> \<lparr>att_fecha_UNGRD_match = fecha_UNGRD_match r, att_dif_dias_min = dif_dias_min r,
                   att_dif_dias_abs = match_dif_dias_abs r,
                   att_tipo_coincidencia = tipo_coincidencia r\<rparr>)"

definition attach_matches ::
  "(nat \<times> 'p) list \<Rightarrow> match_row list \<Rightarrow> ((nat \<times> 'p) \<times> (nat \<times> attached) option) list" where
  "attach_matches gdf_firms_reset matches =
     (let base = map fst gdf_firms_reset;
          m = map (\<lambda>(i, r). (i, fillna_tipo r)) (left_merge (\<lambda>i. i) match_idx_firms base matches)
      in left_merge fst fst gdf_firms_reset m)"

text \<open>The pipeline of \<open>run_firms_vs_ungrd\<close> between loading and writing.\<close>

definition match_points ::
  "firms_point list \<Rightarrow> ungrd_event list \<Rightarrow> int \<Rightarrow> ((nat \<times> firms_point) \<times> (nat \<times> attached) option) list" where
  "match_points gdf_firms df_ungrd window_days =
     (let (merged, gdf_firms_reset) = build_candidates gdf_firms df_ungrd;
          matches = best_match_per_point merged window_days
      in attach_matches gdf_firms_reset matches)"


subsection \<open>The joins keep every point once\<close>

lemma filter_distinct_key:
  "distinct (map rk right) \<Longrightarrow>
   filter (\<lambda>b. rk b = k) right = (case find (\<lambda>b. rk b = k) right of None \<Rightarrow> [] | Some b \<Rightarrow> [b])"
proof (induction right)
  case Nil
  show ?case by simp
next
  case (Cons b bs)
  show ?case
  proof (cases "rk b = k")
    case True
    from Cons.prems have nb: "rk b \<notin> rk ` set bs" by simp
    have "\<forall>x \<in> set bs. rk x \<noteq> k"
    proof
      fix x assume "x \<in> set bs"
      then have "rk x \<in> rk ` set bs" by simp
      with nb True show "rk x \<noteq> k" by auto
    qed
    then have "filter (\<lambda>b. rk b = k) bs = []" by (simp add: filter_empty_conv)
    with True show ?thesis by simp
  next
    case False
    with Cons show ?thesis by simp
  qed
qed

lemma left_merge_distinct:
  assumes "distinct (map rk right)"
  shows "left_merge lk rk left right = map (\<lambda>a. (a, find (\<lambda>b. rk b = lk a) right)) left"
proof -
  have "(case filter (\<lambda>b. rk b = lk a) right of [] \<Rightarrow> [(a, None)] | bs \<Rightarrow> map (\<lambda>b. (a, Some b)) bs)
      = [(a, find (\<lambda>b. rk b = lk a) right)]" for a
    by (simp add: filter_distinct_key [OF assms] split: option.splits)
  then show ?thesis by (simp add: left_merge_def concat_map_singleton)
qed

lemma find_map_key:
  assumes "\<And>k. h (f k) = k"
  shows "find (\<lambda>r. h r = i) (map f ks) = (if i \<in> set ks then Some (f i) else None)"
  using assms by (induction ks) auto

lemma reset_index_fst: "map fst (reset_index gdf) = [0..<length gdf]"
  by (simp add: reset_index_def)

lemma reset_index_snd: "map snd (reset_index gdf) = gdf"
  by (simp add: reset_index_def)

lemma reset_index_nth: "i < length gdf \<Longrightarrow> reset_index gdf ! i = (i, gdf ! i)"
  by (simp add: reset_index_def)

lemma distinct_best_match:
  "distinct (map match_idx_firms (best_match_per_point merged window_days))"
proof -
  have "map match_idx_firms (groupby_first window_days rows) = sort (remdups (map idx_firms rows))"
    for rows
    by (simp add: groupby_first_def first_of_group_def Let_def comp_def)
  moreover have "distinct (map (\<lambda>i. i) (drop_duplicates (\<lambda>i. i) (map idx_firms merged)))"
    unfolding drop_duplicates_def by (rule distinct_dds)
  ultimately show ?thesis
    by (simp add: best_match_per_point_def Let_def comp_def)
qed

lemma attach_matches_eq:
  assumes "distinct (map match_idx_firms matches)" and "distinct (map fst gdf_firms_reset)"
  shows "attach_matches gdf_firms_reset matches =
     map (\<lambda>ip. (ip, Some (fst ip, fillna_tipo (find (\<lambda>r. match_idx_firms r = fst ip) matches))))
       gdf_firms_reset"
proof -
  let ?g = "\<lambda>i. (i, fillna_tipo (find (\<lambda>r. match_idx_firms r = i) matches))"
  let ?base = "map fst gdf_firms_reset"
  have m: "map (\<lambda>(i, r). (i, fillna_tipo r)) (left_merge (\<lambda>i. i) match_idx_firms ?base matches)
      = map ?g ?base"
    by (simp add: left_merge_distinct [OF assms(1)] comp_def)
  have d: "distinct (map fst (map ?g ?base))"
    using assms(2) by (simp add: comp_def)
  have f: "find (\<lambda>b. fst b = fst ip) (map ?g ?base) = Some (?g (fst ip))"
    if "ip \<in> set gdf_firms_reset" for ip
    using that find_map_key [of fst ?g "fst ip" ?base] by simp
  have "left_merge fst fst gdf_firms_reset (map ?g ?base)
      = map (\<lambda>a. (a, find (\<lambda>b. fst b = fst a) (map ?g ?base))) gdf_firms_reset"
    by (rule left_merge_distinct [OF d])
  also have "\<dots> = map (\<lambda>ip. (ip, Some (?g (fst ip)))) gdf_firms_reset"
    by (rule map_cong [OF refl]) (simp only: f)
  finally show ?thesis
    unfolding attach_matches_def Let_def m .
qed

lemma match_points_eq:
  "match_points gdf_firms df_ungrd window_days =
     map (\<lambda>ip. (ip, Some (fst ip, fillna_tipo (find (\<lambda>r. match_idx_firms r = fst ip)
        (best_match_per_point (fst (build_candidates gdf_firms df_ungrd)) window_days)))))
       (reset_index gdf_firms)"
proof -
  have "distinct (map fst (reset_index gdf_firms))" by (simp add: reset_index_fst)
  then show ?thesis
    by (simp add: match_points_def build_candidates_def Let_def
        attach_matches_eq [OF distinct_best_match])
qed


text \<open>
  Claim C1. For all points, events and windows the output has one row per input point,
  in the input order, each with its match columns; and a point for which the best-match
  table has no row carries the label \<open>sin_coincidencia\<close>.
\<close>

theorem match_points_left_join:
  "length (match_points gdf_firms df_ungrd window_days) = length gdf_firms \<and>
   map (snd \<circ> fst) (match_points gdf_firms df_ungrd window_days) = gdf_firms \<and>
   map (fst \<circ> fst) (match_points gdf_firms df_ungrd window_days) = [0..<length gdf_firms] \<and>
   (\<forall>i < length gdf_firms.
      \<exists>att. match_points gdf_firms df_ungrd window_days ! i = ((i, gdf_firms ! i), Some (i, att)) \<and>
        ((\<forall>r \<in> set (best_match_per_point (fst (build_candidates gdf_firms df_ungrd)) window_days).
            match_idx_firms r \<noteq> i)
         \<longrightarrow> att_tipo_coincidencia att = ''sin_coincidencia''))"
proof -
  let ?matches = "best_match_per_point (fst (build_candidates gdf_firms df_ungrd)) window_days"
  let ?att = "\<lambda>i. fillna_tipo (find (\<lambda>r. match_idx_firms r = i) ?matches)"
  have eq: "match_points gdf_firms df_ungrd window_days =
      map (\<lambda>ip. (ip, Some (fst ip, ?att (fst ip)))) (reset_index gdf_firms)"
    by (rule match_points_eq)
  have 1: "length (match_points gdf_firms df_ungrd window_days) = length gdf_firms"
    unfolding eq by (simp add: reset_index_def)
  have 2: "map (snd \<circ> fst) (match_points gdf_firms df_ungrd window_days) = gdf_firms"
    unfolding eq using reset_index_snd [of gdf_firms] by (simp add: comp_def)
  have 3: "map (fst \<circ> fst) (match_points gdf_firms df_ungrd window_days) = [0..<length gdf_firms]"
    unfolding eq using reset_index_fst [of gdf_firms] by (simp add: comp_def)
  have 4: "\<exists>att. match_points gdf_firms df_ungrd window_days ! i = ((i, gdf_firms ! i), Some (i, att)) \<and>
        ((\<forall>r \<in> set ?matches. match_idx_firms r \<noteq> i)
         \<longrightarrow> att_tipo_coincidencia att = ''sin_coincidencia'')"
    if "i < length gdf_firms" for i
  proof -
    from that have len: "i < length (reset_index gdf_firms)" by (simp add: reset_index_def)
    have row: "match_points gdf_firms df_ungrd window_days ! i = ((i, gdf_firms ! i), Some (i, ?att i))"
      unfolding eq using len that by (simp add: reset_index_nth)
    have "att_tipo_coincidencia (?att i) = ''sin_coincidencia''"
      if "\<forall>r \<in> set ?matches. match_idx_firms r \<noteq> i"
    proof -
      from that have "find (\<lambda>r. match_idx_firms r = i) ?matches = None"
        by (simp add: find_None_iff)
      then show ?thesis by (simp add: fillna_tipo_def)
    qed
    with row show ?thesis by blast
  qed
  from 1 2 3 4 show ?thesis by blast
qed


text \<open>
  Concrete inputs: two points dated 2020-01-10 (day 18271), the second without a
  department, and one event in the first point's municipality dated 2020-02-01.
\<close>

definition day :: "int \<Rightarrow> timestamp" where
  "day n = n * ns_per_day"

definition point_X :: "timestamp option \<Rightarrow> firms_point" where
  "point_X d = \<lparr>depto_std = Some [88], mpnombre_s_std = Some [88], fecha_FIRMS = d\<rparr>"

definition event_X :: "timestamp option \<Rightarrow> ungrd_event" where
  "event_X d = \<lparr>DEPTO_std = Some [88], MUNICIPIO_std = Some [88], FECHA = d\<rparr>"

lemma ex_candidates:
  "build_candidates [point_X (Some (day 18271)), (point_X (Some (day 18271)))\<lparr>depto_std := None\<rparr>]
     [event_X (Some (day 18293))]
   = ([\<lparr>idx_firms = 0, cand_fecha_FIRMS = Some (day 18271), cand_FECHA = Some (day 18293)\<rparr>,
       \<lparr>idx_firms = Suc 0, cand_fecha_FIRMS = Some (day 18271), cand_FECHA = None\<rparr>],
      [(0, point_X (Some (day 18271))), (Suc 0, (point_X (Some (day 18271)))\<lparr>depto_std := None\<rparr>)])"
  by (simp add: build_candidates_def reset_index_def left_merge_def point_X_def event_X_def
      upt_rec)

lemma ex_dif:
  "dif_dias \<lparr>idx_firms = 0, cand_fecha_FIRMS = Some (day 18271), cand_FECHA = Some (day 18293)\<rparr>
     = Some (- 22)"
  by (simp add: dif_dias_def day_def ns_per_day_def)

lemma ex_best:
  "best_match_per_point
     [\<lparr>idx_firms = 0, cand_fecha_FIRMS = Some (day 18271), cand_FECHA = Some (day 18293)\<rparr>,
      \<lparr>idx_firms = Suc 0, cand_fecha_FIRMS = Some (day 18271), cand_FECHA = None\<rparr>] 5
   = [\<lparr>match_idx_firms = 0, fecha_UNGRD_match = Some (day 18293), dif_dias_min = Some (- 22),
       match_dif_dias_abs = Some 22, tipo_coincidencia = ''sin_coincidencia''\<rparr>]"
  by (simp add: best_match_per_point_def groupby_first_def first_of_group_def ex_dif
      dif_dias_abs_def first_notnull_def tipo_def)

lemma ex_attach:
  "attach_matches [(0::nat, p0), (Suc 0, p1)]
     [\<lparr>match_idx_firms = 0, fecha_UNGRD_match = Some (day 18293), dif_dias_min = Some (- 22),
       match_dif_dias_abs = Some 22, tipo_coincidencia = ''sin_coincidencia''\<rparr>]
   = [((0, p0),
       Some (0, \<lparr>att_fecha_UNGRD_match = Some (day 18293), att_dif_dias_min = Some (- 22),
                 att_dif_dias_abs = Some 22, att_tipo_coincidencia = ''sin_coincidencia''\<rparr>)),
      ((Suc 0, p1),
       Some (Suc 0, \<lparr>att_fecha_UNGRD_match = None, att_dif_dias_min = None,
                 att_dif_dias_abs = None, att_tipo_coincidencia = ''sin_coincidencia''\<rparr>))]"
  by (simp add: attach_matches_def left_merge_def fillna_tipo_def)

lemma match_example_none:
  "match_points [point_X (Some (day 18271)), (point_X (Some (day 18271)))\<lparr>depto_std := None\<rparr>]
     [event_X (Some (day 18293))] 5
   = [((0, point_X (Some (day 18271))),
       Some (0, \<lparr>att_fecha_UNGRD_match = Some (day 18293), att_dif_dias_min = Some (- 22),
                 att_dif_dias_abs = Some 22, att_tipo_coincidencia = ''sin_coincidencia''\<rparr>)),
      ((Suc 0, (point_X (Some (day 18271)))\<lparr>depto_std := None\<rparr>),
       Some (Suc 0, \<lparr>att_fecha_UNGRD_match = None, att_dif_dias_min = None,
                 att_dif_dias_abs = None, att_tipo_coincidencia = ''sin_coincidencia''\<rparr>))]"
  by (simp add: match_points_def ex_candidates ex_best ex_attach)

theorem match_points_left_join_witness:
  "(1::nat) < length [point_X (Some (day 18271)), (point_X (Some (day 18271)))\<lparr>depto_std := None\<rparr>] \<and>
   length (match_points
      [point_X (Some (day 18271)), (point_X (Some (day 18271)))\<lparr>depto_std := None\<rparr>]
      [event_X (Some (day 18293))] 5) = 2 \<and>
   match_points
      [point_X (Some (day 18271)), (point_X (Some (day 18271)))\<lparr>depto_std := None\<rparr>]
      [event_X (Some (day 18293))] 5 ! 1
     = ((1, (point_X (Some (day 18271)))\<lparr>depto_std := None\<rparr>),
        Some (1, \<lparr>att_fecha_UNGRD_match = None, att_dif_dias_min = None,
                  att_dif_dias_abs = None, att_tipo_coincidencia = ''sin_coincidencia''\<rparr>))"
  using match_points_left_join
      [of "[point_X (Some (day 18271)), (point_X (Some (day 18271)))\<lparr>depto_std := None\<rparr>]"
        "[event_X (Some (day 18293))]" 5]
    match_example_none
  by simp

subsection \<open>The best match of a point\<close>

lemma find_groupby_first:
  "find (\<lambda>r. match_idx_firms r = i) (groupby_first w rows) =
     (if i \<in> idx_firms ` set rows
      then Some (first_of_group w i (filter (\<lambda>c. idx_firms c = i) rows)) else None)"
proof -
  have "match_idx_firms (first_of_group w k (filter (\<lambda>c. idx_firms c = k) rows)) = k" for k
    by (simp add: first_of_group_def Let_def)
  from find_map_key [of match_idx_firms
      "\<lambda>k. first_of_group w k (filter (\<lambda>c. idx_firms c = k) rows)", OF this]
  show ?thesis by (simp add: groupby_first_def)
qed

lemma sort_key_hd_min:
  assumes "xs \<noteq> []"
  shows "\<exists>h t. sort_key f xs = h # t \<and> h \<in> set xs \<and> (\<forall>x \<in> set xs. f h \<le> f x)"
proof -
  have "length (sort_key f xs) = length xs" by simp
  with assms obtain h t where ht: "sort_key f xs = h # t" by (cases "sort_key f xs") auto
  have "sorted (map f (sort_key f xs))" by simp
  with ht have "\<forall>x \<in> set (h # t). f h \<le> f x" by auto
  moreover have "set (h # t) = set xs" using ht by (metis set_sort)
  ultimately show ?thesis using ht by auto
qed

lemma sort_key_const:
  assumes "\<forall>x \<in> set xs. f x = k"
  shows "sort_key f xs = xs"
proof -
  have "filter (\<lambda>y. f y = k) (sort_key f xs) = filter (\<lambda>y. f y = k) xs"
    by (rule sort_key_stable)
  moreover have "filter (\<lambda>y. f y = k) (sort_key f xs) = sort_key f xs"
    using assms by (simp add: filter_id_conv)
  moreover have "filter (\<lambda>y. f y = k) xs = xs"
    using assms by (simp add: filter_id_conv)
  ultimately show ?thesis by simp
qed

lemma first_notnull_Some: "first_notnull (Some v # vs) = Some v"
  by (simp add: first_notnull_def)

lemma first_notnull_all_None: "\<forall>x \<in> set xs. f x = None \<Longrightarrow> first_notnull (map f xs) = None"
  by (simp add: first_notnull_def filter_empty_conv)

lemma first_notnull_filter:
  "first_notnull (map f (filter (\<lambda>c. f c \<noteq> None) xs)) = first_notnull (map f xs)"
  by (simp add: first_notnull_def filter_map comp_def)

lemma dif_dias_Some_iff:
  "dif_dias c = Some d \<longleftrightarrow>
     (\<exists>p e. cand_fecha_FIRMS c = Some p \<and> cand_FECHA c = Some e \<and> d = (p - e) div ns_per_day)"
  by (auto simp: dif_dias_def split: option.splits)

lemma dif_dias_None_iff:
  "dif_dias c = None \<longleftrightarrow> cand_fecha_FIRMS c = None \<or> cand_FECHA c = None"
  by (auto simp: dif_dias_def split: option.splits)

lemma tipo_ranked:
  "tipo w (Some d) (Some \<bar>d\<bar>) =
     (if d = 0 then ''exacta''
      else if \<bar>d\<bar> \<le> w then ''ventana_'' @ show_int w @ ''dias'' else ''sin_coincidencia'')"
  by (simp add: tipo_def)

lemma tipo_null: "tipo w None None = ''sin_coincidencia''"
  by (simp add: tipo_def)

lemma group_ranked:
  assumes "c \<in> set G" and "dif_dias c = Some dc" and "\<forall>x \<in> set G. idx_firms x = i"
  shows "\<exists>h dh. h \<in> set G \<and> dif_dias h = Some dh \<and>
      (\<forall>x \<in> set G. \<forall>dx. dif_dias x = Some dx \<longrightarrow> \<bar>dh\<bar> \<le> \<bar>dx\<bar>) \<and>
      first_of_group w i (sort_key sort_key_idx_abs G) =
        \<lparr>match_idx_firms = i, fecha_UNGRD_match = cand_FECHA h, dif_dias_min = Some dh,
         match_dif_dias_abs = Some \<bar>dh\<bar>, tipo_coincidencia = tipo w (Some dh) (Some \<bar>dh\<bar>)\<rparr>"
proof -
  from assms(1) have "G \<noteq> []" by auto
  from sort_key_hd_min [OF this, of sort_key_idx_abs] obtain h t where
    ht: "sort_key sort_key_idx_abs G = h # t" and hG: "h \<in> set G"
    and hmin: "\<forall>x \<in> set G. sort_key_idx_abs h \<le> sort_key_idx_abs x" by blast
  have idx: "idx_firms h = i" "idx_firms c = i" using assms(1,3) hG by auto
  from hmin assms(1) have "sort_key_idx_abs h \<le> sort_key_idx_abs c" by blast
  with idx assms(2) have "dif_dias_abs h \<noteq> None"
    by (auto simp: sort_key_idx_abs_def dif_dias_abs_def)
  then obtain dh where dh: "dif_dias h = Some dh" by (auto simp: dif_dias_abs_def)
  have min: "\<bar>dh\<bar> \<le> \<bar>dx\<bar>" if "x \<in> set G" "dif_dias x = Some dx" for x dx
  proof -
    from hmin that(1) have "sort_key_idx_abs h \<le> sort_key_idx_abs x" by blast
    moreover have "idx_firms x = i" using assms(3) that(1) by auto
    ultimately show ?thesis using idx dh that(2)
      by (auto simp: sort_key_idx_abs_def dif_dias_abs_def)
  qed
  from dh have fe: "cand_FECHA h \<noteq> None" by (auto simp: dif_dias_Some_iff)
  then obtain e where e: "cand_FECHA h = Some e" by auto
  have "first_of_group w i (h # t) =
        \<lparr>match_idx_firms = i, fecha_UNGRD_match = cand_FECHA h, dif_dias_min = Some dh,
         match_dif_dias_abs = Some \<bar>dh\<bar>, tipo_coincidencia = tipo w (Some dh) (Some \<bar>dh\<bar>)\<rparr>"
    using dh e by (simp add: first_of_group_def Let_def first_notnull_Some dif_dias_abs_def)
  with ht hG dh min show ?thesis by auto
qed


lemma best_match_ranked:
  assumes "c \<in> set merged" and "idx_firms c = i" and "dif_dias c = Some dc"
  shows "\<exists>h dh. h \<in> set merged \<and> idx_firms h = i \<and> dif_dias h = Some dh \<and>
      (\<forall>x \<in> set merged. \<forall>dx. idx_firms x = i \<and> dif_dias x = Some dx \<longrightarrow> \<bar>dh\<bar> \<le> \<bar>dx\<bar>) \<and>
      find (\<lambda>r. match_idx_firms r = i) (best_match_per_point merged w) =
        Some \<lparr>match_idx_firms = i, fecha_UNGRD_match = cand_FECHA h, dif_dias_min = Some dh,
          match_dif_dias_abs = Some \<bar>dh\<bar>, tipo_coincidencia = tipo w (Some dh) (Some \<bar>dh\<bar>)\<rparr>"
proof -
  let ?valid = "filter (\<lambda>c. cand_FECHA c \<noteq> None) merged"
  let ?G = "filter (\<lambda>c. idx_firms c = i) ?valid"
  from assms(3) have "cand_FECHA c \<noteq> None" by (auto simp: dif_dias_Some_iff)
  with assms(1,2) have cG: "c \<in> set ?G" and cv: "c \<in> set ?valid" by auto
  have ne: "length ?valid \<noteq> 0"
    by (rule gr_implies_not0 [OF length_pos_if_in_set [OF cv]])
  have "i \<in> idx_firms ` set (sort_key sort_key_idx_abs ?valid)"
    using cv assms(2) by (auto simp: image_iff)
  then have f: "find (\<lambda>r. match_idx_firms r = i) (groupby_first w (sort_key sort_key_idx_abs ?valid))
      = Some (first_of_group w i (sort_key sort_key_idx_abs ?G))"
    by (simp only: find_groupby_first filter_sort if_True)
  from group_ranked [OF cG assms(3), of i w] obtain h dh where
    h: "h \<in> set ?G" "dif_dias h = Some dh"
      "\<forall>x \<in> set ?G. \<forall>dx. dif_dias x = Some dx \<longrightarrow> \<bar>dh\<bar> \<le> \<bar>dx\<bar>"
      "first_of_group w i (sort_key sort_key_idx_abs ?G) =
        \<lparr>match_idx_firms = i, fecha_UNGRD_match = cand_FECHA h, dif_dias_min = Some dh,
         match_dif_dias_abs = Some \<bar>dh\<bar>, tipo_coincidencia = tipo w (Some dh) (Some \<bar>dh\<bar>)\<rparr>"
    by auto
  have min: "\<bar>dh\<bar> \<le> \<bar>dx\<bar>" if "x \<in> set merged" "idx_firms x = i" "dif_dias x = Some dx" for x dx
  proof -
    from that(3) have "cand_FECHA x \<noteq> None" by (auto simp: dif_dias_Some_iff)
    with that(1,2) have "x \<in> set ?G" by simp
    with h(3) that(3) show ?thesis by blast
  qed
  have "find (\<lambda>r. match_idx_firms r = i) (best_match_per_point merged w) =
      Some (first_of_group w i (sort_key sort_key_idx_abs ?G))"
    using ne f by (simp add: best_match_per_point_def Let_def)
  with h min show ?thesis by (intro exI [of _ h] exI [of _ dh]) auto
qed

lemma filter_best_match:
  "filter (\<lambda>r. match_idx_firms r = i) (best_match_per_point merged w) =
     (case find (\<lambda>r. match_idx_firms r = i) (best_match_per_point merged w) of
        None \<Rightarrow> [] | Some r \<Rightarrow> [r])"
  by (rule filter_distinct_key) (rule distinct_best_match)

text \<open>
  Claim C2. For every table of candidates and every point that has a candidate with both
  dates, the best-match table has exactly one row for the point; it carries the event date
  and the signed difference (point date minus event date, in whole days) of one of the
  point's candidates, whose absolute difference is least among the point's candidates with
  both dates; the label is \<open>exacta\<close> exactly when the difference is 0,
  \<open>ventana_{window_days}dias\<close> exactly when it is not 0 and its absolute value is at
  most the window, and \<open>sin_coincidencia\<close> exactly otherwise.
\<close>

theorem best_match_per_point_minimal:
  assumes "c \<in> set merged" and "idx_firms c = i"
    and "cand_fecha_FIRMS c = Some pc" and "cand_FECHA c = Some ec"
  shows "\<exists>r h p e.
      filter (\<lambda>r. match_idx_firms r = i) (best_match_per_point merged window_days) = [r] \<and>
      h \<in> set merged \<and> idx_firms h = i \<and> cand_fecha_FIRMS h = Some p \<and> cand_FECHA h = Some e \<and>
      fecha_UNGRD_match r = Some e \<and>
      dif_dias_min r = Some ((p - e) div ns_per_day) \<and>
      match_dif_dias_abs r = Some \<bar>(p - e) div ns_per_day\<bar> \<and>
      (\<forall>x \<in> set merged. \<forall>px ex.
          idx_firms x = i \<and> cand_fecha_FIRMS x = Some px \<and> cand_FECHA x = Some ex
          \<longrightarrow> \<bar>(p - e) div ns_per_day\<bar> \<le> \<bar>(px - ex) div ns_per_day\<bar>) \<and>
      (tipo_coincidencia r = ''exacta'' \<longleftrightarrow> (p - e) div ns_per_day = 0) \<and>
      (tipo_coincidencia r = ''ventana_'' @ show_int window_days @ ''dias'' \<longleftrightarrow>
          (p - e) div ns_per_day \<noteq> 0 \<and> \<bar>(p - e) div ns_per_day\<bar> \<le> window_days) \<and>
      (tipo_coincidencia r = ''sin_coincidencia'' \<longleftrightarrow>
          (p - e) div ns_per_day \<noteq> 0 \<and> \<not> \<bar>(p - e) div ns_per_day\<bar> \<le> window_days)"
proof -
  from assms(3,4) have "dif_dias c = Some ((pc - ec) div ns_per_day)"
    by (simp add: dif_dias_def)
  from best_match_ranked [OF assms(1,2) this, of window_days] obtain h dh where
    h: "h \<in> set merged" "idx_firms h = i" "dif_dias h = Some dh"
      "\<forall>x \<in> set merged. \<forall>dx. idx_firms x = i \<and> dif_dias x = Some dx \<longrightarrow> \<bar>dh\<bar> \<le> \<bar>dx\<bar>"
      "find (\<lambda>r. match_idx_firms r = i) (best_match_per_point merged window_days) =
        Some \<lparr>match_idx_firms = i, fecha_UNGRD_match = cand_FECHA h, dif_dias_min = Some dh,
          match_dif_dias_abs = Some \<bar>dh\<bar>,
          tipo_coincidencia = tipo window_days (Some dh) (Some \<bar>dh\<bar>)\<rparr>"
    by blast
  from h(3) obtain p e where pe: "cand_fecha_FIRMS h = Some p" "cand_FECHA h = Some e"
    "dh = (p - e) div ns_per_day" by (auto simp: dif_dias_Some_iff)
  define r where "r = \<lparr>match_idx_firms = i, fecha_UNGRD_match = cand_FECHA h,
          dif_dias_min = Some dh, match_dif_dias_abs = Some \<bar>dh\<bar>,
          tipo_coincidencia = tipo window_days (Some dh) (Some \<bar>dh\<bar>)\<rparr>"
  have 1: "filter (\<lambda>r. match_idx_firms r = i) (best_match_per_point merged window_days) = [r]"
    by (simp add: filter_best_match h(5) r_def)
  have 2: "\<forall>x \<in> set merged. \<forall>px ex.
          idx_firms x = i \<and> cand_fecha_FIRMS x = Some px \<and> cand_FECHA x = Some ex
          \<longrightarrow> \<bar>(p - e) div ns_per_day\<bar> \<le> \<bar>(px - ex) div ns_per_day\<bar>"
  proof (intro ballI allI impI)
    fix x px ex
    assume x: "x \<in> set merged"
      and "idx_firms x = i \<and> cand_fecha_FIRMS x = Some px \<and> cand_FECHA x = Some ex"
    then have "idx_firms x = i" "dif_dias x = Some ((px - ex) div ns_per_day)"
      by (simp_all add: dif_dias_def)
    with h(4) x have "\<bar>dh\<bar> \<le> \<bar>(px - ex) div ns_per_day\<bar>" by blast
    then show "\<bar>(p - e) div ns_per_day\<bar> \<le> \<bar>(px - ex) div ns_per_day\<bar>"
      by (simp only: pe(3))
  qed
  have 3: "tipo_coincidencia r = ''exacta'' \<longleftrightarrow> (p - e) div ns_per_day = 0"
    unfolding pe(3) [symmetric] by (simp add: r_def tipo_ranked)
  have 4: "tipo_coincidencia r = ''ventana_'' @ show_int window_days @ ''dias'' \<longleftrightarrow>
      (p - e) div ns_per_day \<noteq> 0 \<and> \<bar>(p - e) div ns_per_day\<bar> \<le> window_days"
    unfolding pe(3) [symmetric] by (simp add: r_def tipo_ranked)
  have 5: "tipo_coincidencia r = ''sin_coincidencia'' \<longleftrightarrow>
      (p - e) div ns_per_day \<noteq> 0 \<and> \<not> \<bar>(p - e) div ns_per_day\<bar> \<le> window_days"
    unfolding pe(3) [symmetric] by (simp add: r_def tipo_ranked)
  have 6: "fecha_UNGRD_match r = Some e" by (simp add: r_def pe(2))
  have 7: "dif_dias_min r = Some ((p - e) div ns_per_day)" by (simp add: r_def pe(3))
  have 8: "match_dif_dias_abs r = Some \<bar>(p - e) div ns_per_day\<bar>" by (simp add: r_def pe(3))
  from 1 h(1,2) pe(1,2) 6 7 8 2 3 4 5 show ?thesis by blast
qed


text \<open>
  A point dated 2020-01-10 with events on 2020-02-01 and 2020-01-13: the second is chosen,
  three days after the point.
\<close>

lemma show_int_5: "show_int 5 = ''5''"
  by code_simp

lemma ex_best_window:
  "best_match_per_point
     [\<lparr>idx_firms = 0, cand_fecha_FIRMS = Some (day 18271), cand_FECHA = Some (day 18293)\<rparr>,
      \<lparr>idx_firms = 0, cand_fecha_FIRMS = Some (day 18271), cand_FECHA = Some (day 18274)\<rparr>] 5
   = [\<lparr>match_idx_firms = 0, fecha_UNGRD_match = Some (day 18274), dif_dias_min = Some (- 3),
       match_dif_dias_abs = Some 3, tipo_coincidencia = ''ventana_5dias''\<rparr>]"
  by (simp add: best_match_per_point_def groupby_first_def first_of_group_def dif_dias_def
      dif_dias_abs_def sort_key_idx_abs_def first_notnull_def tipo_def day_def ns_per_day_def
      show_int_5)

theorem best_match_per_point_minimal_witness:
  "\<lparr>idx_firms = 0, cand_fecha_FIRMS = Some (day 18271), cand_FECHA = Some (day 18293)\<rparr>
     \<in> set [\<lparr>idx_firms = 0, cand_fecha_FIRMS = Some (day 18271), cand_FECHA = Some (day 18293)\<rparr>,
            \<lparr>idx_firms = 0, cand_fecha_FIRMS = Some (day 18271), cand_FECHA = Some (day 18274)\<rparr>] \<and>
   filter (\<lambda>r. match_idx_firms r = 0) (best_match_per_point
     [\<lparr>idx_firms = 0, cand_fecha_FIRMS = Some (day 18271), cand_FECHA = Some (day 18293)\<rparr>,
      \<lparr>idx_firms = 0, cand_fecha_FIRMS = Some (day 18271), cand_FECHA = Some (day 18274)\<rparr>] 5)
   = [\<lparr>match_idx_firms = 0, fecha_UNGRD_match = Some (day 18274), dif_dias_min = Some (- 3),
       match_dif_dias_abs = Some 3, tipo_coincidencia = ''ventana_5dias''\<rparr>] \<and>
   (day 18271 - day 18274) div ns_per_day = - 3"
  using best_match_per_point_minimal
      [of "\<lparr>idx_firms = 0, cand_fecha_FIRMS = Some (day 18271), cand_FECHA = Some (day 18293)\<rparr>"
        "[\<lparr>idx_firms = 0, cand_fecha_FIRMS = Some (day 18271), cand_FECHA = Some (day 18293)\<rparr>,
          \<lparr>idx_firms = 0, cand_fecha_FIRMS = Some (day 18271), cand_FECHA = Some (day 18274)\<rparr>]"
        0 "day 18271" "day 18293" 5]
    ex_best_window
  by (simp add: day_def ns_per_day_def)

subsection \<open>Points without a ranked candidate\<close>

lemma best_match_unranked:
  assumes "\<forall>c \<in> set merged. idx_firms c = i \<longrightarrow> dif_dias c = None"
  shows "fillna_tipo (find (\<lambda>r. match_idx_firms r = i) (best_match_per_point merged w)) =
     \<lparr>att_fecha_UNGRD_match =
        first_notnull (map cand_FECHA (filter (\<lambda>c. idx_firms c = i) merged)),
      att_dif_dias_min = None, att_dif_dias_abs = None,
      att_tipo_coincidencia = ''sin_coincidencia''\<rparr>"
proof -
  let ?valid = "filter (\<lambda>c. cand_FECHA c \<noteq> None) merged"
  let ?M = "filter (\<lambda>c. idx_firms c = i) merged"
  let ?G = "filter (\<lambda>c. idx_firms c = i) ?valid"
  let ?null = "\<lparr>att_fecha_UNGRD_match = None, att_dif_dias_min = None, att_dif_dias_abs = None,
      att_tipo_coincidencia = ''sin_coincidencia''\<rparr>"
  have G: "?G = filter (\<lambda>c. cand_FECHA c \<noteq> None) ?M"
    by (induction merged) auto
  have fn: "first_notnull (map cand_FECHA ?G) = first_notnull (map cand_FECHA ?M)"
    unfolding G by (rule first_notnull_filter)
  show ?thesis
  proof (cases "length ?valid = 0")
    case True
    then have "\<forall>c \<in> set ?M. cand_FECHA c = None"
      by (auto simp: filter_empty_conv)
    then have n: "first_notnull (map cand_FECHA ?M) = None"
      by (rule first_notnull_all_None)
    let ?f = "\<lambda>k. \<lparr>match_idx_firms = k, fecha_UNGRD_match = None, dif_dias_min = None,
        match_dif_dias_abs = None, tipo_coincidencia = ''sin_coincidencia''\<rparr>"
    have "find (\<lambda>r. match_idx_firms r = i)
          (map ?f (drop_duplicates (\<lambda>i. i) (map idx_firms merged)))
        = (if i \<in> set (drop_duplicates (\<lambda>i. i) (map idx_firms merged)) then Some (?f i) else None)"
      by (rule find_map_key) simp
    then have "fillna_tipo (find (\<lambda>r. match_idx_firms r = i)
          (map ?f (drop_duplicates (\<lambda>i. i) (map idx_firms merged)))) = ?null"
      by (simp add: fillna_tipo_def)
    with True n show ?thesis by (simp add: best_match_per_point_def Let_def)
  next
    case False
    then have bm: "best_match_per_point merged w = groupby_first w (sort_key sort_key_idx_abs ?valid)"
      by (simp add: best_match_per_point_def Let_def)
    show ?thesis
    proof (cases "i \<in> idx_firms ` set ?valid")
      case True
      then have f: "find (\<lambda>r. match_idx_firms r = i)
            (groupby_first w (sort_key sort_key_idx_abs ?valid))
          = Some (first_of_group w i (sort_key sort_key_idx_abs ?G))"
        by (simp only: find_groupby_first filter_sort set_sort if_True)
      have none: "\<forall>x \<in> set ?G. dif_dias x = None" using assms by auto
      then have "\<forall>x \<in> set ?G. sort_key_idx_abs x = (i, True, 0)"
        by (auto simp: sort_key_idx_abs_def dif_dias_abs_def)
      then have sc: "sort_key sort_key_idx_abs ?G = ?G" by (rule sort_key_const)
      have A: "first_notnull (map dif_dias ?G) = None"
        using none by (rule first_notnull_all_None)
      have B: "first_notnull (map dif_dias_abs ?G) = None"
        by (rule first_notnull_all_None) (use none in \<open>auto simp: dif_dias_abs_def\<close>)
      have fg: "first_of_group w i ?G =
          \<lparr>match_idx_firms = i, fecha_UNGRD_match = first_notnull (map cand_FECHA ?M),
            dif_dias_min = None, match_dif_dias_abs = None,
            tipo_coincidencia = ''sin_coincidencia''\<rparr>"
        by (simp only: first_of_group_def Let_def A B fn tipo_null)
      have "find (\<lambda>r. match_idx_firms r = i) (best_match_per_point merged w) =
          Some \<lparr>match_idx_firms = i, fecha_UNGRD_match = first_notnull (map cand_FECHA ?M),
            dif_dias_min = None, match_dif_dias_abs = None,
            tipo_coincidencia = ''sin_coincidencia''\<rparr>"
        by (simp only: bm f sc fg)
      then show ?thesis by (simp add: fillna_tipo_def)
    next
      case False
      then have "find (\<lambda>r. match_idx_firms r = i) (groupby_first w (sort_key sort_key_idx_abs ?valid))
          = None"
        by (simp only: find_groupby_first set_sort if_False)
      moreover from False have "\<forall>c \<in> set ?M. cand_FECHA c = None"
        by (auto simp: image_iff)
      then have "first_notnull (map cand_FECHA ?M) = None"
        by (rule first_notnull_all_None)
      ultimately show ?thesis by (simp add: bm fillna_tipo_def)
    qed
  qed
qed

lemma first_notnull_None_iff:
  "first_notnull (map f xs) = None \<longleftrightarrow> (\<forall>x \<in> set xs. f x = None)"
proof (induction xs)
  case Nil
  show ?case by (simp add: first_notnull_def)
next
  case (Cons x xs)
  then show ?case by (cases "f x") (auto simp: first_notnull_def)
qed

text \<open>
  Claim C7, as the code has it. A point none of whose candidates has both dates gets the
  label \<open>sin_coincidencia\<close> and null day differences. Its matched event date is the
  first event date among its candidates: null exactly when none of its candidates has an
  event date. The filter before the ranking keeps every candidate with an event date,
  also those of a point whose own date is null.
\<close>

theorem unranked_point_result:
  assumes "i < length gdf_firms"
    and "\<forall>c \<in> set (fst (build_candidates gdf_firms df_ungrd)).
           idx_firms c = i \<longrightarrow> cand_fecha_FIRMS c = None \<or> cand_FECHA c = None"
  shows "\<exists>att. match_points gdf_firms df_ungrd window_days ! i = ((i, gdf_firms ! i), Some (i, att)) \<and>
      att_tipo_coincidencia att = ''sin_coincidencia'' \<and>
      att_dif_dias_min att = None \<and> att_dif_dias_abs att = None \<and>
      att_fecha_UNGRD_match att =
        first_notnull (map cand_FECHA
          (filter (\<lambda>c. idx_firms c = i) (fst (build_candidates gdf_firms df_ungrd)))) \<and>
      (att_fecha_UNGRD_match att = None \<longleftrightarrow>
        (\<forall>c \<in> set (fst (build_candidates gdf_firms df_ungrd)).
            idx_firms c = i \<longrightarrow> cand_FECHA c = None))"
proof -
  let ?merged = "fst (build_candidates gdf_firms df_ungrd)"
  let ?att = "fillna_tipo (find (\<lambda>r. match_idx_firms r = i)
      (best_match_per_point ?merged window_days))"
  from assms(2) have "\<forall>c \<in> set ?merged. idx_firms c = i \<longrightarrow> dif_dias c = None"
    by (simp add: dif_dias_None_iff)
  then have att: "?att =
     \<lparr>att_fecha_UNGRD_match =
        first_notnull (map cand_FECHA (filter (\<lambda>c. idx_firms c = i) ?merged)),
      att_dif_dias_min = None, att_dif_dias_abs = None,
      att_tipo_coincidencia = ''sin_coincidencia''\<rparr>"
    by (rule best_match_unranked)
  from assms(1) have len: "i < length (reset_index gdf_firms)" by (simp add: reset_index_def)
  have row: "match_points gdf_firms df_ungrd window_days ! i = ((i, gdf_firms ! i), Some (i, ?att))"
    unfolding match_points_eq using len assms(1) by (simp add: reset_index_nth)
  have 1: "att_tipo_coincidencia ?att = ''sin_coincidencia''" by (simp add: att)
  have 2: "att_dif_dias_min ?att = None" by (simp add: att)
  have 3: "att_dif_dias_abs ?att = None" by (simp add: att)
  have 4: "att_fecha_UNGRD_match ?att =
      first_notnull (map cand_FECHA (filter (\<lambda>c. idx_firms c = i) ?merged))"
    by (simp add: att)
  have 5: "att_fecha_UNGRD_match ?att = None \<longleftrightarrow>
      (\<forall>c \<in> set ?merged. idx_firms c = i \<longrightarrow> cand_FECHA c = None)"
    unfolding 4 first_notnull_None_iff by auto
  show ?thesis
    by (rule exI [of _ ?att]) (intro conjI row 1 2 3 4 5)
qed

text \<open>A point with a null date and one dated event in its municipality.\<close>

lemma ex_null_candidates:
  "build_candidates [point_X None] [event_X (Some (day 18271))]
   = ([\<lparr>idx_firms = 0, cand_fecha_FIRMS = None, cand_FECHA = Some (day 18271)\<rparr>],
      [(0, point_X None)])"
  by (simp add: build_candidates_def reset_index_def left_merge_def point_X_def event_X_def)

lemma ex_null_best:
  "best_match_per_point
     [\<lparr>idx_firms = 0, cand_fecha_FIRMS = None, cand_FECHA = Some (day 18271)\<rparr>] 5
   = [\<lparr>match_idx_firms = 0, fecha_UNGRD_match = Some (day 18271), dif_dias_min = None,
       match_dif_dias_abs = None, tipo_coincidencia = ''sin_coincidencia''\<rparr>]"
  by (simp add: best_match_per_point_def groupby_first_def first_of_group_def dif_dias_def
      dif_dias_abs_def first_notnull_def tipo_def)

lemma ex_null_attach:
  "attach_matches [(0::nat, p0)]
     [\<lparr>match_idx_firms = 0, fecha_UNGRD_match = Some (day 18271), dif_dias_min = None,
       match_dif_dias_abs = None, tipo_coincidencia = ''sin_coincidencia''\<rparr>]
   = [((0, p0),
       Some (0, \<lparr>att_fecha_UNGRD_match = Some (day 18271), att_dif_dias_min = None,
                 att_dif_dias_abs = None, att_tipo_coincidencia = ''sin_coincidencia''\<rparr>))]"
  by (simp add: attach_matches_def left_merge_def fillna_tipo_def)

lemma ex_null_date:
  "match_points [point_X None] [event_X (Some (day 18271))] 5 =
     [((0, point_X None),
       Some (0, \<lparr>att_fecha_UNGRD_match = Some (day 18271), att_dif_dias_min = None,
                 att_dif_dias_abs = None, att_tipo_coincidencia = ''sin_coincidencia''\<rparr>))]"
  by (simp add: match_points_def ex_null_candidates ex_null_best ex_null_attach)

text \<open>
  Claim C7 as stated fails there: the only candidate of the point has no day difference,
  and the result still carries the event's date.
\<close>

theorem unranked_point_keeps_event_date:
  "map dif_dias (fst (build_candidates [point_X None] [event_X (Some (day 18271))])) = [None] \<and>
   match_points [point_X None] [event_X (Some (day 18271))] 5 =
     [((0, point_X None),
       Some (0, \<lparr>att_fecha_UNGRD_match = Some (day 18271), att_dif_dias_min = None,
                 att_dif_dias_abs = None, att_tipo_coincidencia = ''sin_coincidencia''\<rparr>))] \<and>
   att_fecha_UNGRD_match
     \<lparr>att_fecha_UNGRD_match = Some (day 18271), att_dif_dias_min = None,
      att_dif_dias_abs = None, att_tipo_coincidencia = ''sin_coincidencia''\<rparr> \<noteq> None"
  by (simp add: ex_null_date ex_null_candidates dif_dias_def)

theorem unranked_point_result_witness:
  "0 < length [point_X None] \<and>
   fst (build_candidates [point_X None] [event_X (Some (day 18271))]) =
     [\<lparr>idx_firms = 0, cand_fecha_FIRMS = None, cand_FECHA = Some (day 18271)\<rparr>] \<and>
   match_points [point_X None] [event_X (Some (day 18271))] 5 ! 0 =
     ((0, point_X None),
       Some (0, \<lparr>att_fecha_UNGRD_match = Some (day 18271), att_dif_dias_min = None,
                 att_dif_dias_abs = None, att_tipo_coincidencia = ''sin_coincidencia''\<rparr>)) \<and>
   first_notnull (map cand_FECHA (filter (\<lambda>c. idx_firms c = 0)
     (fst (build_candidates [point_X None] [event_X (Some (day 18271))])))) = Some (day 18271)"
  using unranked_point_result [of 0 "[point_X None]" "[event_X (Some (day 18271))]" 5]
  by (simp add: ex_null_date ex_null_candidates first_notnull_def)

section \<open>random\_absence\_points: rejection sampling\<close>

text \<open>
  Coordinates are real numbers and a geometry is the set of the points that make it up.
  \<open>contains\<close> holds for a point in the interior of the geometry (a point of the border
  is not contained), \<open>unary_union\<close> is the union and \<open>difference\<close> the set difference.
  The interior is taken with open squares around the point.
\<close>

type_synonym point = "real \<times> real"
type_synonym region = "point set"

definition interior_of :: "region \<Rightarrow> region" where
  "interior_of g =
     {p. \<exists>e > 0. \<forall>q. \<bar>fst q - fst p\<bar> < e \<and> \<bar>snd q - snd p\<bar> < e \<longrightarrow> q \<in> g}"

definition contains :: "region \<Rightarrow> point \<Rightarrow> bool" where
  "contains g p \<longleftrightarrow> p \<in> interior_of g"

definition distance :: "point \<Rightarrow> point \<Rightarrow> real" where
  "distance p q = sqrt ((fst p - fst q)\<^sup>2 + (snd p - snd q)\<^sup>2)"

definition unary_union :: "region list \<Rightarrow> region" where
  "unary_union gs = \<Union> (set gs)"

text \<open>
  \<open>pts.geometry.buffer(buffer_m)\<close> passes the distance only, so the library builds
  each buffer with its default of 16 segments for a quarter of the circle: the buffer of
  a point is the regular polygon of 64 sides whose corners lie on the circle of the given
  radius, the first of them in the direction of the first axis. Side \<open>k\<close> of that
  polygon faces the direction \<open>(2 * k + 1) * pi / 64\<close> and lies at distance
  \<open>r * cos (pi / 64)\<close> from the centre, and the polygon is what lies on the inner side of
  all of its sides. A distance that is not positive gives the empty geometry.
\<close>

definition quad_segs :: nat where
  "quad_segs = 16"

definition buffer :: "real \<Rightarrow> point \<Rightarrow> region" where
  "buffer r c =
     (if r \<le> 0 then {}
      else {q. \<forall>k < 4 * quad_segs.
              (fst q - fst c) * cos ((2 * real k + 1) * pi / real (4 * quad_segs))
              + (snd q - snd c) * sin ((2 * real k + 1) * pi / real (4 * quad_segs))
              \<le> r * cos (pi / real (4 * quad_segs))})"

definition difference :: "region \<Rightarrow> region \<Rightarrow> region" where
  "difference a b = a - b"

text \<open>
  The errors of the module: the two \<open>ValueError\<close>s of \<open>build_allowed_zone\<close> and the
  \<open>RuntimeError\<close> of the sampler, whose message names the number of points obtained,
  the number requested and the number of attempts.
\<close>

datatype sampling_error =
    EmptyAOI
  | EmptyAllowedZone
  | InsufficientPoints nat int int

definition build_allowed_zone :: "region list \<Rightarrow> point list \<Rightarrow> real \<Rightarrow> sampling_error + region" where
  "build_allowed_zone aoi pts buffer_m =
     (let aoi_geom = unary_union aoi
      in if aoi_geom = {} then Inl EmptyAOI
         else
           (let buffer_union = unary_union (map (buffer buffer_m) pts);
                allowed = difference aoi_geom buffer_union
            in if allowed = {} then Inl EmptyAllowedZone else Inr allowed))"

text \<open>
  The random number library is a parameter: \<open>seeded s\<close> is the generator state that
  \<open>default_rng\<close> derives from the integer seed \<open>s\<close> (a seed is a non-negative
  integer), \<open>unseeded\<close> the state it takes from the operating system's entropy when no
  seed is given, and \<open>uniform\<close> one call of \<open>rng.uniform(low, high)\<close>, which returns
  the number and the next state.
\<close>

record ('g, 'e) numpy_random =
  seeded :: "nat \<Rightarrow> 'g"
  unseeded :: "'e \<Rightarrow> 'g \<times> 'e"
  uniform :: "'g \<Rightarrow> real \<Rightarrow> real \<Rightarrow> real \<times> 'g"

definition default_rng :: "('g, 'e) numpy_random \<Rightarrow> nat option \<Rightarrow> 'e \<Rightarrow> 'g \<times> 'e" where
  "default_rng L seed os =
     (case seed of Some s \<Rightarrow> (seeded L s, os) | None \<Rightarrow> unseeded L os)"

text \<open>
  One pass of the loop draws \<open>x\<close> and then \<open>y\<close> from the bounding box. The loop runs
  while fewer than \<open>n_points\<close> points are accepted and fewer than \<open>max_attempts\<close>
  attempts are made; \<open>max_attempts - attempts\<close> decreases, so it is a total function.
\<close>

definition draw_point ::
  "('g, 'e) numpy_random \<Rightarrow> real \<times> real \<times> real \<times> real \<Rightarrow> 'g \<Rightarrow> point \<times> 'g" where
  "draw_point L b rng =
     (case b of (minx, miny, maxx, maxy) \<Rightarrow>
        (let (x, rng1) = uniform L rng minx maxx;
             (y, rng2) = uniform L rng1 miny maxy
         in ((x, y), rng2)))"

function sample_loop ::
  "('g, 'e) numpy_random \<Rightarrow> region \<Rightarrow> real \<times> real \<times> real \<times> real \<Rightarrow> int \<Rightarrow> int \<Rightarrow>
   'g \<Rightarrow> point list \<Rightarrow> int \<Rightarrow> 'g \<times> point list \<times> int" where
  "sample_loop L geom b n_points max_attempts rng pts attempts =
     (if int (length pts) < n_points \<and> attempts < max_attempts then
        (let (p, rng2) = draw_point L b rng;
             pts2 = (if contains geom p then pts @ [p] else pts)
         in sample_loop L geom b n_points max_attempts rng2 pts2 (attempts + 1))
      else (rng, pts, attempts))"
  by pat_completeness auto
termination
  by (relation "measure (\<lambda>(L, geom, b, n_points, max_attempts, rng, pts, attempts).
        nat (max_attempts - attempts))") auto

declare sample_loop.simps [simp del]

text \<open>
  \<open>bounds\<close> is the library's \<open>geom.bounds\<close>. \<open>run_sampler\<close> is the body of
  \<open>generate_random_points_in_geom\<close> up to the end of the loop; the function itself
  raises or returns the accepted points.
\<close>

definition run_sampler ::
  "('g, 'e) numpy_random \<Rightarrow> (region \<Rightarrow> real \<times> real \<times> real \<times> real) \<Rightarrow> region \<Rightarrow> int \<Rightarrow> nat \<Rightarrow> int
   \<Rightarrow> 'e \<Rightarrow> ('g \<times> point list \<times> int) \<times> 'e" where
  "run_sampler L bounds geom n_points seed max_attempts_factor os =
     (let (rng, os2) = default_rng L (Some seed) os;
          max_attempts = n_points * max_attempts_factor
      in (sample_loop L geom (bounds geom) n_points max_attempts rng [] 0, os2))"

definition generate_random_points_in_geom ::
  "('g, 'e) numpy_random \<Rightarrow> (region \<Rightarrow> real \<times> real \<times> real \<times> real) \<Rightarrow> region \<Rightarrow> int \<Rightarrow> nat \<Rightarrow> int
   \<Rightarrow> 'e \<Rightarrow> (sampling_error + point list) \<times> 'e" where
  "generate_random_points_in_geom L bounds geom n_points seed max_attempts_factor os =
     (case run_sampler L bounds geom n_points seed max_attempts_factor os of
        ((rng, pts, attempts), os2) \<Rightarrow>
          (if int (length pts) < n_points
           then Inl (InsufficientPoints (length pts) n_points attempts)
           else Inr pts, os2))"

text \<open>The first \<open>k\<close> points a generator state yields, drawn as the loop draws them.\<close>

fun draws ::
  "('g, 'e) numpy_random \<Rightarrow> real \<times> real \<times> real \<times> real \<Rightarrow> 'g \<Rightarrow> nat \<Rightarrow> point list" where
  "draws L b rng 0 = []"
| "draws L b rng (Suc k) = (let (p, rng2) = draw_point L b rng in p # draws L b rng2 k)"

subsection \<open>What the loop computes\<close>

lemma sample_loop_spec:
  "sample_loop L geom b n M rng pts a = (rng', pts', a') \<Longrightarrow>
   pts' = pts @ take (nat (n - int (length pts))) (filter (contains geom) (draws L b rng (nat (M - a))))
   \<and> a \<le> a' \<and> a' \<le> max a M \<and> (int (length pts') < n \<longrightarrow> a' = max a M)"
proof (induction L geom b n M rng pts a arbitrary: rng' pts' a' rule: sample_loop.induct)
  case (1 L geom b n M rng pts a)
  show ?case
  proof (cases "int (length pts) < n \<and> a < M")
    case False
    with "1.prems" have eq: "rng' = rng" "pts' = pts" "a' = a"
      by (simp_all add: sample_loop.simps)
    from False have "nat (n - int (length pts)) = 0 \<or> nat (M - a) = 0" by auto
    then have "take (nat (n - int (length pts)))
        (filter (contains geom) (draws L b rng (nat (M - a)))) = []"
      by auto
    with eq False show ?thesis by auto
  next
    case True
    obtain p rng2 where d: "draw_point L b rng = (p, rng2)" by (cases "draw_point L b rng")
    let ?pts2 = "if contains geom p then pts @ [p] else pts"
    from True "1.prems" d have run: "sample_loop L geom b n M rng2 ?pts2 (a + 1) = (rng', pts', a')"
      by (simp add: sample_loop.simps [of L geom b n M rng pts a])
    from "1.IH" [OF True d [symmetric] refl refl run]
    have IH: "pts' = ?pts2 @ take (nat (n - int (length ?pts2)))
          (filter (contains geom) (draws L b rng2 (nat (M - (a + 1)))))"
      "a + 1 \<le> a'" "a' \<le> max (a + 1) M" "int (length pts') < n \<longrightarrow> a' = max (a + 1) M"
      by auto
    from True obtain k where k: "nat (M - a) = Suc k" "nat (M - (a + 1)) = k"
      by (cases "nat (M - a)") auto
    from True obtain m where m: "nat (n - int (length pts)) = Suc m"
      "nat (n - int (length pts) - 1) = m"
      by (cases "nat (n - int (length pts))") auto
    have "pts' = pts @ take (nat (n - int (length pts)))
        (filter (contains geom) (draws L b rng (nat (M - a))))"
      using IH(1) d k m by (auto simp: algebra_simps)
    with IH True show ?thesis by auto
  qed
qed


lemma default_rng_seed: "default_rng L (Some seed) os = (seeded L seed, os)"
  by (simp add: default_rng_def)

lemma run_sampler_spec:
  assumes "run_sampler L bounds geom n seed f os = ((rng', pts, attempts), os')"
  shows "pts = take (nat n) (filter (contains geom)
            (draws L (bounds geom) (seeded L seed) (nat (n * f))))"
    and "0 \<le> attempts" and "attempts \<le> int (nat (n * f))"
    and "int (length pts) < n \<Longrightarrow> attempts = int (nat (n * f))"
    and "os' = os"
proof -
  from assms have run: "sample_loop L geom (bounds geom) n (n * f) (seeded L seed) [] 0
      = (rng', pts, attempts)" and os: "os' = os"
    by (simp_all add: run_sampler_def default_rng_seed)
  from sample_loop_spec [OF run]
  have "pts = [] @ take (nat (n - int (length ([]::point list))))
          (filter (contains geom) (draws L (bounds geom) (seeded L seed) (nat (n * f - 0))))"
    and a: "0 \<le> attempts" "attempts \<le> max 0 (n * f)"
      "int (length pts) < n \<longrightarrow> attempts = max 0 (n * f)"
    by blast+
  then show "pts = take (nat n) (filter (contains geom)
            (draws L (bounds geom) (seeded L seed) (nat (n * f))))"
    by simp
  show "0 \<le> attempts" by (rule a(1))
  show "attempts \<le> int (nat (n * f))"
    using a(2) by (cases "0 \<le> n * f") (simp_all add: max_def)
  show "attempts = int (nat (n * f))" if "int (length pts) < n"
    using a(3) that by (cases "0 \<le> n * f") (simp_all add: max_def)
  show "os' = os" by (rule os)
qed

lemma generate_random_points_eq:
  "fst (generate_random_points_in_geom L bounds geom n seed f os) =
     (let A = filter (contains geom) (draws L (bounds geom) (seeded L seed) (nat (n * f)))
      in if int (length A) < n then Inl (InsufficientPoints (length A) n (int (nat (n * f))))
         else Inr (take (nat n) A))"
proof -
  let ?A = "filter (contains geom) (draws L (bounds geom) (seeded L seed) (nat (n * f)))"
  obtain rng' pts attempts os' where
    run: "run_sampler L bounds geom n seed f os = ((rng', pts, attempts), os')"
    by (metis prod_cases3 surj_pair)
  note spec = run_sampler_spec [OF run]
  have r: "fst (generate_random_points_in_geom L bounds geom n seed f os) =
      (if int (length pts) < n then Inl (InsufficientPoints (length pts) n attempts) else Inr pts)"
    by (simp add: generate_random_points_in_geom_def run)
  show ?thesis
  proof (cases "int (length ?A) < n")
    case True
    then have "take (nat n) ?A = ?A" by simp
    with spec(1) have pA: "pts = ?A" by simp
    with True spec(4) have "attempts = int (nat (n * f))" by simp
    with r pA True show ?thesis by (simp add: Let_def)
  next
    case False
    then have "int (length (take (nat n) ?A)) \<ge> n" by simp
    with spec(1) have "\<not> int (length pts) < n" by simp
    with r spec(1) False show ?thesis by (simp add: Let_def)
  qed
qed

text \<open>
  Claim C5. The sampler is a total function; it makes at most \<open>n * f\<close> attempts (none
  when the product is negative). With \<open>A\<close> the accepted points among the first
  \<open>n * f\<close> draws: when \<open>A\<close> has at least \<open>n\<close> points the sampler returns the first
  \<open>n\<close> of them, a list of length \<open>n\<close>; otherwise it raises the error that reports the
  number of points obtained, which is below \<open>n\<close>, and the number of attempts made,
  which is the whole budget.
\<close>

theorem sampler_contract:
  "(case fst (run_sampler L bounds geom n seed f os) of
      (rng', pts, attempts) \<Rightarrow> 0 \<le> attempts \<and> attempts \<le> int (nat (n * f))) \<and>
   (n \<le> int (length (filter (contains geom)
            (draws L (bounds geom) (seeded L seed) (nat (n * f)))))
    \<longrightarrow> fst (generate_random_points_in_geom L bounds geom n seed f os) =
          Inr (take (nat n) (filter (contains geom)
            (draws L (bounds geom) (seeded L seed) (nat (n * f))))) \<and>
        length (take (nat n) (filter (contains geom)
            (draws L (bounds geom) (seeded L seed) (nat (n * f))))) = nat n) \<and>
   (int (length (filter (contains geom)
            (draws L (bounds geom) (seeded L seed) (nat (n * f))))) < n
    \<longrightarrow> fst (generate_random_points_in_geom L bounds geom n seed f os) =
          Inl (InsufficientPoints
            (length (filter (contains geom)
               (draws L (bounds geom) (seeded L seed) (nat (n * f)))))
            n (int (nat (n * f)))))"
proof -
  obtain rng' pts attempts os' where
    run: "run_sampler L bounds geom n seed f os = ((rng', pts, attempts), os')"
    by (metis prod_cases3 surj_pair)
  note spec = run_sampler_spec [OF run]
  have 1: "case fst (run_sampler L bounds geom n seed f os) of
      (rng', pts, attempts) \<Rightarrow> 0 \<le> attempts \<and> attempts \<le> int (nat (n * f))"
    using spec(2,3) by (simp add: run)
  show ?thesis
    using 1 by (auto simp: generate_random_points_eq Let_def)
qed

text \<open>
  Claim C4. Two invocations with the same region, target count, seed and attempt factor
  give the same result, the same ordered list of points or the same error, whatever the
  state of the entropy source at each invocation: the generator is created from the seed
  alone and the entropy source is left untouched, so this also holds for two invocations
  one after the other.
\<close>

theorem sampler_deterministic:
  "fst (generate_random_points_in_geom L bounds geom n seed f os1) =
     fst (generate_random_points_in_geom L bounds geom n seed f os2) \<and>
   snd (generate_random_points_in_geom L bounds geom n seed f os1) = os1 \<and>
   (case generate_random_points_in_geom L bounds geom n seed f os1 of
      (first_run, os) \<Rightarrow>
        (case generate_random_points_in_geom L bounds geom n seed f os of
           (second_run, os') \<Rightarrow> first_run = second_run))"
proof -
  have 1: "fst (generate_random_points_in_geom L bounds geom n seed f os1) =
     fst (generate_random_points_in_geom L bounds geom n seed f os2)"
    by (simp only: generate_random_points_eq)
  have 2: "snd (generate_random_points_in_geom L bounds geom n seed f os) = os" for os
    by (simp add: generate_random_points_in_geom_def run_sampler_def default_rng_seed
        split: prod.splits)
  have 3: "fst (generate_random_points_in_geom L bounds geom n seed f
        (snd (generate_random_points_in_geom L bounds geom n seed f os1))) =
      fst (generate_random_points_in_geom L bounds geom n seed f os1)"
    by (simp only: generate_random_points_eq)
  from 1 2 [of os1] 3 show ?thesis by (auto split: prod.splits)
qed

subsection \<open>Where the sampled points lie\<close>

lemma interior_of_subset: "interior_of g \<subseteq> g"
proof
  fix p assume "p \<in> interior_of g"
  then obtain e where e: "e > 0"
    and q: "\<forall>q. \<bar>fst q - fst p\<bar> < e \<and> \<bar>snd q - snd p\<bar> < e \<longrightarrow> q \<in> g"
    unfolding interior_of_def by blast
  from q have "\<bar>fst p - fst p\<bar> < e \<and> \<bar>snd p - snd p\<bar> < e \<longrightarrow> p \<in> g" by (rule spec)
  with e show "p \<in> g" by simp
qed

lemma build_allowed_zone_Inr:
  "build_allowed_zone aoi excl buffer_m = Inr allowed \<Longrightarrow>
   allowed = \<Union> (set aoi) - (\<Union>c \<in> set excl. buffer buffer_m c) \<and> allowed \<noteq> {}"
  by (auto simp: build_allowed_zone_def Let_def unary_union_def difference_def
      split: if_splits)

text \<open>
  The buffer polygon lies between two circles: it holds the disk of radius
  \<open>r * cos (pi / 64)\<close>, which touches the middle of each side, and it lies within the disk
  of radius \<open>r\<close>, on which its corners are.
\<close>

lemma segment_angle: "0 < cos (pi / 64)" "0 < sin (pi / 64)" "cos (pi / 64) < 1"
proof -
  have p: "0 < pi / 64" "pi / 64 < pi / 2" "pi / 64 < pi" "pi / 64 \<le> pi" by simp_all
  show "0 < cos (pi / 64)" using p(1,2) by (intro cos_gt_zero) simp_all
  show "0 < sin (pi / 64)" using p(1,3) by (rule sin_gt_zero)
  have "cos (pi / 64) < cos 0" using p(1,4) by (intro cos_monotone_0_pi) simp_all
  then show "cos (pi / 64) < 1" by simp
qed

lemma outside_first_side:
  assumes "r * cos (pi / 64) < (fst q - fst c) * cos (pi / 64) + (snd q - snd c) * sin (pi / 64)"
  shows "q \<notin> buffer r c"
proof
  assume "q \<in> buffer r c"
  then have "\<forall>k < 4 * quad_segs.
      (fst q - fst c) * cos ((2 * real k + 1) * pi / real (4 * quad_segs))
      + (snd q - snd c) * sin ((2 * real k + 1) * pi / real (4 * quad_segs))
      \<le> r * cos (pi / real (4 * quad_segs))"
    by (simp add: buffer_def split: if_splits)
  moreover have "(0::nat) < 4 * quad_segs" by (simp add: quad_segs_def)
  ultimately have "(fst q - fst c) * cos ((2 * real 0 + 1) * pi / real (4 * quad_segs))
      + (snd q - snd c) * sin ((2 * real 0 + 1) * pi / real (4 * quad_segs))
      \<le> r * cos (pi / real (4 * quad_segs))"
    by blast
  then have "(fst q - fst c) * cos (pi / 64) + (snd q - snd c) * sin (pi / 64)
      \<le> r * cos (pi / 64)"
    by (simp add: quad_segs_def)
  with assms show False by simp
qed

lemma cos_sin_le_sqrt: "a * cos t + b * sin t \<le> sqrt (a\<^sup>2 + b\<^sup>2)"
proof -
  have "(a * x + b * y)\<^sup>2 + (a * y - b * x)\<^sup>2 = (a\<^sup>2 + b\<^sup>2) * (y\<^sup>2 + x\<^sup>2)" for x y :: real
    by (simp add: power2_eq_square algebra_simps)
  then have "(a * cos t + b * sin t)\<^sup>2 + (a * sin t - b * cos t)\<^sup>2
      = (a\<^sup>2 + b\<^sup>2) * ((sin t)\<^sup>2 + (cos t)\<^sup>2)" .
  then have "(a * cos t + b * sin t)\<^sup>2 + (a * sin t - b * cos t)\<^sup>2 = a\<^sup>2 + b\<^sup>2"
    by simp
  then have "(a * cos t + b * sin t)\<^sup>2 \<le> a\<^sup>2 + b\<^sup>2"
    using zero_le_power2 [of "a * sin t - b * cos t"] by linarith
  then show ?thesis by (rule real_le_rsqrt)
qed

lemma buffer_contains_inner_disk:
  assumes "0 < r" and "distance q c \<le> r * cos (pi / real (4 * quad_segs))"
  shows "q \<in> buffer r c"
proof -
  have "(fst q - fst c) * cos t + (snd q - snd c) * sin t
      \<le> r * cos (pi / real (4 * quad_segs))" for t
    using cos_sin_le_sqrt [of "fst q - fst c" t "snd q - snd c"] assms(2)
    by (simp add: distance_def)
  with assms(1) show ?thesis by (simp add: buffer_def)
qed

lemma cos_near: "\<bar>t\<bar> \<le> pi / 64 \<Longrightarrow> cos (pi / 64) \<le> cos t"
proof -
  assume t: "\<bar>t\<bar> \<le> pi / 64"
  have "cos (pi / 64) \<le> cos \<bar>t\<bar>"
    using t by (intro cos_monotone_0_pi_le) simp_all
  then show ?thesis by simp
qed

lemma nearest_side:
  assumes "0 \<le> phi" and "phi < 2 * pi"
  shows "\<exists>k < 4 * quad_segs. \<bar>phi - (2 * real k + 1) * pi / real (4 * quad_segs)\<bar> \<le> pi / 64"
proof -
  let ?k = "nat \<lfloor>phi * 32 / pi\<rfloor>"
  have nn: "0 \<le> phi * 32 / pi" using assms(1) by simp
  then have fl: "0 \<le> \<lfloor>phi * 32 / pi\<rfloor>" by simp
  then have rk: "real ?k = of_int \<lfloor>phi * 32 / pi\<rfloor>" by simp
  have lo: "real ?k \<le> phi * 32 / pi" unfolding rk by (rule of_int_floor_le)
  have hi: "phi * 32 / pi < real ?k + 1" unfolding rk by linarith
  have "phi * 32 / pi < 64" using assms(2) by (simp add: field_simps)
  with lo have "real ?k < 64" by linarith
  then have k: "?k < 4 * quad_segs" by (simp add: quad_segs_def)
  from lo have l2: "real ?k * pi \<le> phi * 32" by (simp add: field_simps)
  from hi have h2: "phi * 32 < (real ?k + 1) * pi" by (simp add: field_simps)
  define u where "u = real ?k * pi / 32"
  have t: "(2 * real ?k + 1) * pi / real (4 * quad_segs) = u + pi / 64"
    by (simp add: u_def quad_segs_def field_simps)
  have "u \<le> phi" using l2 by (simp add: u_def field_simps)
  moreover have "phi < u + pi / 32" using h2 by (simp add: u_def field_simps)
  moreover have "pi / 32 = pi / 64 + pi / 64" by simp
  ultimately have "\<bar>phi - (u + pi / 64)\<bar> \<le> pi / 64" by linarith
  then have "\<bar>phi - (2 * real ?k + 1) * pi / real (4 * quad_segs)\<bar> \<le> pi / 64"
    by (simp only: t)
  with k show ?thesis by blast
qed

lemma buffer_within_circle:
  assumes "q \<in> buffer r c"
  shows "distance q c \<le> r"
proof -
  let ?a = "fst q - fst c" and ?b = "snd q - snd c"
  let ?d = "distance q c"
  from assms have r: "0 < r"
    and sides: "\<forall>k < 4 * quad_segs.
      ?a * cos ((2 * real k + 1) * pi / real (4 * quad_segs))
      + ?b * sin ((2 * real k + 1) * pi / real (4 * quad_segs))
      \<le> r * cos (pi / real (4 * quad_segs))"
    by (simp_all add: buffer_def not_le split: if_splits)
  have d0: "0 \<le> ?d" by (simp add: distance_def)
  show ?thesis
  proof (cases "?d = 0")
    case True
    with r show ?thesis by simp
  next
    case False
    with d0 have d: "0 < ?d" by simp
    have dd: "?d\<^sup>2 = ?a\<^sup>2 + ?b\<^sup>2" by (simp add: distance_def)
    have "(?a / ?d)\<^sup>2 + (?b / ?d)\<^sup>2 = (?a\<^sup>2 + ?b\<^sup>2) / ?d\<^sup>2"
      by (simp add: power_divide add_divide_distrib)
    also have "\<dots> = ?d\<^sup>2 / ?d\<^sup>2" by (simp only: dd)
    also have "\<dots> = 1" using d by simp
    finally obtain phi where phi: "0 \<le> phi" "phi < 2 * pi"
      and x: "?a / ?d = cos phi" and y: "?b / ?d = sin phi"
      using sincos_total_2pi by blast
    from x d have a: "?a = ?d * cos phi" by (simp add: field_simps)
    from y d have b: "?b = ?d * sin phi" by (simp add: field_simps)
    from nearest_side [OF phi] obtain k where k: "k < 4 * quad_segs"
      and near: "\<bar>phi - (2 * real k + 1) * pi / real (4 * quad_segs)\<bar> \<le> pi / 64"
      by blast
    let ?t = "(2 * real k + 1) * pi / real (4 * quad_segs)"
    from sides k have "?a * cos ?t + ?b * sin ?t \<le> r * cos (pi / real (4 * quad_segs))"
      by blast
    then have s: "?a * cos ?t + ?b * sin ?t \<le> r * cos (pi / 64)"
      by (simp add: quad_segs_def)
    have "?a * cos ?t + ?b * sin ?t = ?d * (cos phi * cos ?t + sin phi * sin ?t)"
      by (simp only: a b algebra_simps)
    also have "\<dots> = ?d * cos (phi - ?t)" by (simp only: cos_diff)
    finally have e: "?a * cos ?t + ?b * sin ?t = ?d * cos (phi - ?t)" .
    from cos_near [OF near] d0 have "?d * cos (pi / 64) \<le> ?d * cos (phi - ?t)"
      by (rule mult_left_mono)
    with s e have "?d * cos (pi / 64) \<le> r * cos (pi / 64)" by linarith
    with segment_angle(1) show ?thesis by simp
  qed
qed

text \<open>
  Claim C6, as far as the code supports it. Every point the sampler returns for the zone
  that \<open>build_allowed_zone\<close> built is contained in the zone, that is, lies in its
  interior; a drawn point that is not in the interior is not returned; and so every
  returned point lies in a polygon of the area of interest and outside the buffer polygon
  of every exclusion point, which puts it farther than \<open>buffer_m * cos (pi / 64)\<close> from
  every exclusion point when \<open>buffer_m\<close> is positive. It need not be farther than
  \<open>buffer_m\<close>.
\<close>

theorem sampled_points_outside_buffer_polygons:
  assumes "build_allowed_zone aoi excl buffer_m = Inr allowed"
    and "fst (generate_random_points_in_geom L bounds allowed n seed f os) = Inr pts"
    and "p \<in> set pts"
  shows "contains allowed p \<and> p \<in> interior_of allowed \<and> p \<in> allowed \<and>
    (\<exists>a \<in> set aoi. p \<in> a) \<and> (\<forall>c \<in> set excl. p \<notin> buffer buffer_m c) \<and>
    (0 < buffer_m \<longrightarrow>
       (\<forall>c \<in> set excl. buffer_m * cos (pi / real (4 * quad_segs)) < distance p c)) \<and>
    (\<forall>q. q \<notin> interior_of allowed \<longrightarrow> q \<notin> set pts)"
proof -
  let ?A = "filter (contains allowed) (draws L (bounds allowed) (seeded L seed) (nat (n * f)))"
  from assms(2) have pts: "pts = take (nat n) ?A"
    by (simp add: generate_random_points_eq Let_def split: if_splits)
  have sub: "set pts \<subseteq> set ?A" unfolding pts by (rule set_take_subset)
  then have all: "\<forall>q \<in> set pts. contains allowed q" by auto
  with assms(3) have c: "contains allowed p" by blast
  then have i: "p \<in> interior_of allowed" by (simp add: contains_def)
  with interior_of_subset have m: "p \<in> allowed" by blast
  from build_allowed_zone_Inr [OF assms(1)] m
  have a: "\<exists>a \<in> set aoi. p \<in> a" and b: "\<forall>c \<in> set excl. p \<notin> buffer buffer_m c"
    by auto
  have d: "0 < buffer_m \<longrightarrow>
      (\<forall>c \<in> set excl. buffer_m * cos (pi / real (4 * quad_segs)) < distance p c)"
  proof (intro impI ballI)
    fix c assume r: "0 < buffer_m" and "c \<in> set excl"
    with b have "p \<notin> buffer buffer_m c" by blast
    with buffer_contains_inner_disk [OF r, of p c]
    have "\<not> distance p c \<le> buffer_m * cos (pi / real (4 * quad_segs))" by blast
    then show "buffer_m * cos (pi / real (4 * quad_segs)) < distance p c" by linarith
  qed
  have e: "\<forall>q. q \<notin> interior_of allowed \<longrightarrow> q \<notin> set pts"
    using all by (auto simp: contains_def)
  from c i m a b d e show ?thesis by (intro conjI)
qed


subsection \<open>A run of the sampler\<close>

text \<open>
  A generator that cycles through four fractions of the interval, the square of side 4 as
  area of interest and one exclusion point at the origin with a buffer of 1. Seed 42 draws
  (2, 3), then (0, 1), which is on the border of the square, then (2, 3) again.
\<close>

definition toy_rng :: "(nat, nat) numpy_random" where
  "toy_rng =
     \<lparr>seeded = (\<lambda>s. s),
      unseeded = (\<lambda>e. (e, Suc e)),
      uniform = (\<lambda>g lo hi. (lo + (hi - lo) * (real (g mod 4) / 4), Suc g))\<rparr>"

definition square_aoi :: region where
  "square_aoi = {p. 0 \<le> fst p \<and> fst p \<le> 4 \<and> 0 \<le> snd p \<and> snd p \<le> 4}"

definition zone_ex :: region where
  "zone_ex = square_aoi - buffer 1 (0, 0)"

text \<open>
  A second run: the square of side 4 around the origin as area of interest, the same
  exclusion point and buffer, and a generator that alternates between two fractions,
  chosen so that the first point drawn is \<open>sliver_point\<close>. That point lies in the
  direction of the middle of the first side of the buffer polygon, halfway between the
  side and the circle.
\<close>

definition sliver_point :: point where
  "sliver_point =
     ((1 + cos (pi / 64)) / 2 * cos (pi / 64), (1 + cos (pi / 64)) / 2 * sin (pi / 64))"

definition wide_aoi :: region where
  "wide_aoi = {p. - 2 \<le> fst p \<and> fst p \<le> 2 \<and> - 2 \<le> snd p \<and> snd p \<le> 2}"

definition zone_sliver :: region where
  "zone_sliver = wide_aoi - buffer 1 (0, 0)"

definition two_fraction_rng :: "(real \<times> real, nat) numpy_random" where
  "two_fraction_rng =
     \<lparr>seeded = (\<lambda>s. ((fst sliver_point + 2) / 4, (snd sliver_point + 2) / 4)),
      unseeded = (\<lambda>e. ((0, 0), Suc e)),
      uniform = (\<lambda>g lo hi. (lo + (hi - lo) * fst g, (snd g, fst g)))\<rparr>"

lemma zone_ex_far: "1 < x \<Longrightarrow> 0 < y \<Longrightarrow> (x, y) \<notin> buffer 1 (0, 0)"
proof -
  assume x: "1 < x" and y: "0 < y"
  from x segment_angle(1) have "1 * cos (pi / 64) < x * cos (pi / 64)"
    by (intro mult_strict_right_mono)
  moreover from y segment_angle(2) have "0 < y * sin (pi / 64)" by simp
  ultimately have "1 * cos (pi / 64) < x * cos (pi / 64) + y * sin (pi / 64)" by linarith
  then show ?thesis by (intro outside_first_side) simp
qed

lemma zone_ex_member: "(2, 3) \<in> zone_ex"
  using zone_ex_far [of 2 3] by (simp add: zone_ex_def square_aoi_def)

lemma zone_ex_contains_2_3: "contains zone_ex (2, 3)"
proof -
  have "q \<in> zone_ex" if "\<bar>fst q - 2\<bar> < 1 \<and> \<bar>snd q - 3\<bar> < 1" for q :: point
  proof -
    from that have b: "1 < fst q" "fst q < 3" "2 < snd q" "snd q < 4" by auto
    then have "(fst q, snd q) \<notin> buffer 1 (0, 0)" by (intro zone_ex_far) simp_all
    with b show ?thesis by (simp add: zone_ex_def square_aoi_def)
  qed
  then have "\<exists>e > 0. \<forall>q. \<bar>fst q - fst (2::real, 3::real)\<bar> < e \<and>
      \<bar>snd q - snd (2::real, 3::real)\<bar> < e \<longrightarrow> q \<in> zone_ex"
    by (intro exI [of _ 1]) simp
  then show ?thesis by (simp add: contains_def interior_of_def)
qed

lemma zone_ex_rejects_0_1: "\<not> contains zone_ex (0, 1)"
proof
  assume "contains zone_ex (0, 1)"
  then obtain e where e: "0 < e"
    and q: "\<forall>q. \<bar>fst q - fst (0::real, 1::real)\<bar> < e \<and> \<bar>snd q - snd (0::real, 1::real)\<bar> < e
        \<longrightarrow> q \<in> zone_ex"
    unfolding contains_def interior_of_def by blast
  from q have "\<bar>fst (- (e / 2), 1::real) - fst (0::real, 1::real)\<bar> < e \<and>
      \<bar>snd (- (e / 2), 1::real) - snd (0::real, 1::real)\<bar> < e
      \<longrightarrow> (- (e / 2), 1) \<in> zone_ex"
    by (rule spec)
  with e have "(- (e / 2), 1) \<in> zone_ex" by simp
  with e show False by (simp add: zone_ex_def square_aoi_def)
qed

lemma zone_ex_built: "build_allowed_zone [square_aoi] [(0, 0)] 1 = Inr zone_ex"
proof -
  have "(2, 3) \<in> square_aoi" by (simp add: square_aoi_def)
  then have "square_aoi \<noteq> {}" by blast
  moreover have "zone_ex \<noteq> {}" using zone_ex_member by blast
  ultimately show ?thesis
    by (simp add: build_allowed_zone_def unary_union_def difference_def Let_def zone_ex_def)
qed

lemma draws_numeral:
  "draws L b rng (numeral k) =
     (let (p, rng2) = draw_point L b rng in p # draws L b rng2 (pred_numeral k))"
  by (simp add: numeral_eq_Suc)

lemma toy_draws:
  "draws toy_rng (0, 0, 4, 4) 42 4 = [(2, 3), (0, 1), (2, 3), (0, 1)]"
  "draws toy_rng (0, 0, 4, 4) 42 3 = [(2, 3), (0, 1), (2, 3)]"
  by (simp_all add: draws_numeral draw_point_def toy_rng_def)

lemma toy_seed: "seeded toy_rng 42 = 42"
  by (simp add: toy_rng_def)

lemma toy_runs:
  "fst (generate_random_points_in_geom toy_rng (\<lambda>g. (0, 0, 4, 4)) zone_ex 2 42 2 os)
     = Inr [(2, 3), (2, 3)]"
  "fst (generate_random_points_in_geom toy_rng (\<lambda>g. (0, 0, 4, 4)) zone_ex 3 42 1 os)
     = Inl (InsufficientPoints 2 3 3)"
proof -
  have s: "seeded toy_rng 42 = 42" by (simp add: toy_rng_def)
  show "fst (generate_random_points_in_geom toy_rng (\<lambda>g. (0, 0, 4, 4)) zone_ex 2 42 2 os)
     = Inr [(2, 3), (2, 3)]"
    by (simp add: generate_random_points_eq s toy_draws zone_ex_contains_2_3
        zone_ex_rejects_0_1)
  show "fst (generate_random_points_in_geom toy_rng (\<lambda>g. (0, 0, 4, 4)) zone_ex 3 42 1 os)
     = Inl (InsufficientPoints 2 3 3)"
    by (simp add: generate_random_points_eq s toy_draws zone_ex_contains_2_3
        zone_ex_rejects_0_1)
qed

theorem sampler_contract_witness:
  "fst (generate_random_points_in_geom toy_rng (\<lambda>g. (0, 0, 4, 4)) zone_ex 2 42 2 (0::nat))
     = Inr [(2, 3), (2, 3)] \<and>
   fst (generate_random_points_in_geom toy_rng (\<lambda>g. (0, 0, 4, 4)) zone_ex 3 42 1 (0::nat))
     = Inl (InsufficientPoints 2 3 3) \<and>
   filter (contains zone_ex) (draws toy_rng (0, 0, 4, 4) (seeded toy_rng 42) (nat (2 * 2)))
     = [(2, 3), (2, 3)] \<and>
   filter (contains zone_ex) (draws toy_rng (0, 0, 4, 4) (seeded toy_rng 42) (nat (3 * 1)))
     = [(2, 3), (2, 3)]"
  using sampler_contract [where L = toy_rng and bounds = "\<lambda>g. (0, 0, 4, 4)" and geom = zone_ex
        and n = 2 and seed = 42 and f = 2 and os = "0::nat"]
    sampler_contract [where L = toy_rng and bounds = "\<lambda>g. (0, 0, 4, 4)" and geom = zone_ex
        and n = 3 and seed = 42 and f = 1 and os = "0::nat"]
  by (simp add: toy_runs toy_draws toy_seed zone_ex_contains_2_3 zone_ex_rejects_0_1)

theorem sampler_deterministic_witness:
  "fst (generate_random_points_in_geom toy_rng (\<lambda>g. (0, 0, 4, 4)) zone_ex 2 42 2 (0::nat))
     = Inr [(2, 3), (2, 3)] \<and>
   fst (generate_random_points_in_geom toy_rng (\<lambda>g. (0, 0, 4, 4)) zone_ex 2 42 2 (7::nat))
     = Inr [(2, 3), (2, 3)] \<and>
   snd (generate_random_points_in_geom toy_rng (\<lambda>g. (0, 0, 4, 4)) zone_ex 2 42 2 (0::nat)) = 0"
  using sampler_deterministic [where L = toy_rng and bounds = "\<lambda>g. (0, 0, 4, 4)"
        and geom = zone_ex and n = 2 and seed = 42 and f = 2 and ?os1.0 = "0::nat"
        and ?os2.0 = "7::nat"]
  by (simp add: toy_runs)

lemma sliver_coordinates:
  "0 < fst sliver_point" "fst sliver_point < 1" "0 < snd sliver_point" "snd sliver_point < 1"
  "fst sliver_point * cos (pi / 64) + snd sliver_point * sin (pi / 64) = (1 + cos (pi / 64)) / 2"
proof -
  let ?c = "cos (pi / 64)" and ?s = "sin (pi / 64)"
  let ?t = "(1 + ?c) / 2"
  note a = segment_angle
  have t: "0 < ?t" "?t < 1" using a by simp_all
  have s1: "?s \<le> 1" by (rule sin_le_one)
  show "0 < fst sliver_point" using t(1) a(1) by (simp add: sliver_point_def)
  show "0 < snd sliver_point" using t(1) a(2) by (simp add: sliver_point_def)
  have "?t * ?c < 1 * 1" using t a by (intro mult_strict_mono) simp_all
  then show "fst sliver_point < 1" by (simp add: sliver_point_def)
  have "?t * ?s < 1 * 1" using t a s1 by (intro mult_less_le_imp_less) simp_all
  then show "snd sliver_point < 1" by (simp add: sliver_point_def)
  have "t * x * x + t * y * y = t * (y\<^sup>2 + x\<^sup>2)" for t x y :: real
    by (simp add: power2_eq_square algebra_simps)
  then have "?t * ?c * ?c + ?t * ?s * ?s = ?t * (?s\<^sup>2 + ?c\<^sup>2)" .
  also have "\<dots> = ?t" by (simp only: sin_cos_squared_add mult_1_right)
  finally have "?t * ?c * ?c + ?t * ?s * ?s = ?t" .
  then show "fst sliver_point * ?c + snd sliver_point * ?s = ?t"
    by (simp only: sliver_point_def fst_conv snd_conv)
qed

lemma sliver_distance: "distance sliver_point (0, 0) = (1 + cos (pi / 64)) / 2"
proof -
  let ?c = "cos (pi / 64)" and ?s = "sin (pi / 64)"
  let ?t = "(1 + ?c) / 2"
  have "(t * x)\<^sup>2 + (t * y)\<^sup>2 = t\<^sup>2 * (y\<^sup>2 + x\<^sup>2)" for t x y :: real
    by (simp add: power2_eq_square algebra_simps)
  then have "(?t * ?c)\<^sup>2 + (?t * ?s)\<^sup>2 = ?t\<^sup>2 * (?s\<^sup>2 + ?c\<^sup>2)" .
  also have "\<dots> = ?t\<^sup>2" by (simp only: sin_cos_squared_add mult_1_right)
  finally have "sqrt ((?t * ?c)\<^sup>2 + (?t * ?s)\<^sup>2) = sqrt (?t\<^sup>2)" by (rule arg_cong)
  also have "\<dots> = \<bar>?t\<bar>" by (rule real_sqrt_abs)
  also have "\<dots> = ?t" using segment_angle(1) by simp
  finally have "sqrt ((?t * ?c)\<^sup>2 + (?t * ?s)\<^sup>2) = ?t" .
  then show ?thesis by (simp only: distance_def sliver_point_def fst_conv snd_conv diff_zero)
qed

lemma zone_sliver_contains: "contains zone_sliver sliver_point"
proof -
  let ?c = "cos (pi / 64)" and ?s = "sin (pi / 64)"
  let ?e = "(1 - ?c) / 8"
  note a = segment_angle
  note p = sliver_coordinates
  have e: "0 < ?e" "?e < 1" using a by simp_all
  have s1: "?s \<le> 1" by (rule sin_le_one)
  have "q \<in> zone_sliver"
    if "\<bar>fst q - fst sliver_point\<bar> < ?e \<and> \<bar>snd q - snd sliver_point\<bar> < ?e" for q :: point
  proof -
    from that have ax: "\<bar>fst q - fst sliver_point\<bar> < ?e"
      and ay: "\<bar>snd q - snd sliver_point\<bar> < ?e"
      by blast+
    from ax have x: "- ?e < fst q - fst sliver_point" "fst q - fst sliver_point < ?e"
      by linarith+
    from ay have y: "- ?e < snd q - snd sliver_point" "snd q - snd sliver_point < ?e"
      by linarith+
    have "- 2 \<le> fst q" "fst q \<le> 2" using x e p(1,2) by linarith+
    moreover have "- 2 \<le> snd q" "snd q \<le> 2" using y e p(3,4) by linarith+
    ultimately have "q \<in> wide_aoi" by (simp add: wide_aoi_def)
    have "- ?e * ?c < (fst q - fst sliver_point) * ?c"
      using x(1) a(1) by (intro mult_strict_right_mono)
    moreover have "- ?e * ?s < (snd q - snd sliver_point) * ?s"
      using y(1) a(2) by (intro mult_strict_right_mono)
    moreover have "?e * ?c \<le> ?e * 1" using e(1) a(3) by (intro mult_left_mono) simp_all
    moreover have "?e * ?s \<le> ?e * 1" using e(1) s1 by (intro mult_left_mono) simp_all
    moreover have "fst q * ?c + snd q * ?s
        = (fst sliver_point * ?c + snd sliver_point * ?s)
          + (fst q - fst sliver_point) * ?c + (snd q - snd sliver_point) * ?s"
      by (simp add: algebra_simps)
    ultimately have "(1 + ?c) / 2 - 2 * ?e < fst q * ?c + snd q * ?s"
      using p(5) by linarith
    moreover have "?c < (1 + ?c) / 2 - 2 * ?e" using a(3) by (simp add: field_simps)
    ultimately have "1 * ?c < (fst q - fst (0::real, 0::real)) * ?c
        + (snd q - snd (0::real, 0::real)) * ?s"
      by simp
    then have "q \<notin> buffer 1 (0, 0)" by (rule outside_first_side)
    with \<open>q \<in> wide_aoi\<close> show ?thesis by (simp add: zone_sliver_def)
  qed
  then have "\<exists>e > 0. \<forall>q. \<bar>fst q - fst sliver_point\<bar> < e \<and> \<bar>snd q - snd sliver_point\<bar> < e
      \<longrightarrow> q \<in> zone_sliver"
    using e(1) by (intro exI [of _ ?e]) simp
  then show ?thesis by (simp add: contains_def interior_of_def)
qed

lemma zone_sliver_built: "build_allowed_zone [wide_aoi] [(0, 0)] 1 = Inr zone_sliver"
proof -
  have "(0, 0) \<in> wide_aoi" by (simp add: wide_aoi_def)
  then have "wide_aoi \<noteq> {}" by blast
  moreover have "sliver_point \<in> zone_sliver"
    using zone_sliver_contains interior_of_subset [of zone_sliver] by (auto simp: contains_def)
  then have "zone_sliver \<noteq> {}" by blast
  ultimately show ?thesis
    by (simp add: build_allowed_zone_def unary_union_def difference_def Let_def
        zone_sliver_def)
qed

lemma sliver_draw:
  "draw_point two_fraction_rng (- 2, - 2, 2, 2) (seeded two_fraction_rng 0)
     = (sliver_point, seeded two_fraction_rng 0)"
proof -
  have x: "- 2 + (2 - - 2) * ((a + 2) / 4) = a" for a :: real
    by (simp add: add_divide_distrib)
  have "draw_point two_fraction_rng (- 2, - 2, 2, 2) (seeded two_fraction_rng 0)
     = ((- 2 + (2 - - 2) * ((fst sliver_point + 2) / 4),
         - 2 + (2 - - 2) * ((snd sliver_point + 2) / 4)), seeded two_fraction_rng 0)"
    by (simp add: draw_point_def two_fraction_rng_def)
  then show ?thesis by (simp only: x prod.collapse)
qed

lemma sliver_run:
  "fst (generate_random_points_in_geom two_fraction_rng (\<lambda>g. (- 2, - 2, 2, 2)) zone_sliver 1 0 1 os)
     = Inr [sliver_point]"
  by (simp add: generate_random_points_eq sliver_draw zone_sliver_contains)

theorem sampled_points_outside_buffer_polygons_witness:
  "build_allowed_zone [square_aoi] [(0, 0)] 1 = Inr zone_ex \<and>
   fst (generate_random_points_in_geom toy_rng (\<lambda>g. (0, 0, 4, 4)) zone_ex 2 42 2 (0::nat))
     = Inr [(2, 3), (2, 3)] \<and>
   (2, 3) \<in> set [(2::real, 3::real), (2, 3)] \<and>
   contains zone_ex (2, 3) \<and> (2, 3) \<in> square_aoi \<and> (2, 3) \<notin> buffer 1 (0, 0) \<and>
   1 * cos (pi / real (4 * quad_segs)) < distance (2, 3) (0, 0) \<and>
   \<not> contains zone_ex (0, 1)"
  using sampled_points_outside_buffer_polygons
      [OF zone_ex_built toy_runs(1) [where os = "0::nat"], where p = "(2, 3)"]
    zone_ex_built zone_ex_rejects_0_1
  by (simp add: toy_runs)

text \<open>
  Claim C6 as the specification words it puts every returned point farther than the
  buffer distance from every exclusion point. With the exclusion point at the origin and
  a buffer of 1 the sampler returns \<open>sliver_point\<close>, which is closer than 1 to the
  origin: it lies between the buffer polygon and the circle around it.
\<close>

theorem sampled_point_within_buffer_distance:
  "build_allowed_zone [wide_aoi] [(0, 0)] 1 = Inr zone_sliver \<and>
   fst (generate_random_points_in_geom two_fraction_rng (\<lambda>g. (- 2, - 2, 2, 2)) zone_sliver 1 0 1
          (0::nat))
     = Inr [sliver_point] \<and>
   distance sliver_point (0, 0) < 1"
  using segment_angle(3) by (simp add: zone_sliver_built sliver_run sliver_distance)

end
